theory Spec2Isabelle
  imports Main "HOL-Library.FSet"
begin

section \<open>aiomcache connection pool: data model\<close>

text \<open>
  The development follows \<^verbatim>\<open>src/aiomcache/pool.py\<close>. Python objects with identity
  (stream readers and writers) are natural-number references into a heap. A
  \<^verbatim>\<open>Connection\<close> is a \<^verbatim>\<open>NamedTuple\<close> of a reader and a writer: Python compares and
  hashes tuples by their components, and the stream classes of asyncio keep the default
  comparison of objects (identity), so equality of the datatype below is exactly the
  \<^verbatim>\<open>==\<close> that \<^verbatim>\<open>set.add\<close> and \<^verbatim>\<open>set.remove\<close> use.
\<close>

datatype error = KeyError | TypeError | ConnectorError string

datatype Connection = Connection (reader: nat) (writer: nat)

text \<open>
  The part of an \<^verbatim>\<open>asyncio.StreamReader\<close> that the pool reads and writes:
  \<^verbatim>\<open>feed_eof()\<close> sets the end-of-file flag, \<^verbatim>\<open>at_eof()\<close> is true when that flag is set and
  the buffer is empty, \<^verbatim>\<open>exception()\<close> returns the recorded exception or \<^verbatim>\<open>None\<close>.
\<close>

record StreamReader =
  eof_fed :: bool
  buffered :: "nat list"
  exn :: "string option"

definition at_eof :: "StreamReader \<Rightarrow> bool" where
  "at_eof rd = (eof_fed rd \<and> buffered rd = [])"

definition feed_eof :: "StreamReader \<Rightarrow> StreamReader" where
  "feed_eof rd = rd\<lparr>eof_fed := True\<rparr>"

text \<open>A connector is one of the two functions of asyncio or a callable of the caller's.
  The latter carries the truth value Python gives the object (\<^verbatim>\<open>bool(connector)\<close>): a
  function is true, an object whose class defines \<^verbatim>\<open>__bool__\<close> or \<^verbatim>\<open>__len__\<close> can be false.\<close>

datatype Connector = OpenConnection | OpenUnixConnection | CustomConnector nat bool

fun truthy :: "Connector \<Rightarrow> bool" where
  "truthy OpenConnection = True"
| "truthy OpenUnixConnection = True"
| "truthy (CustomConnector n b) = b"

datatype pyval = PyStr string | PyInt int

type_synonym conn_args_t = "string \<rightharpoonup> pyval"

text \<open>The attributes of a \<^verbatim>\<open>MemcachePool\<close> object. \<open>pool_q\<close> is the unbounded
  \<^verbatim>\<open>asyncio.Queue\<close> \<^verbatim>\<open>_pool\<close> (head of the list is the next item out), \<open>in_use\<close> the set
  \<^verbatim>\<open>_in_use\<close>.\<close>

record MemcachePool =
  conn_args :: conn_args_t
  connector :: Connector
  minsize :: int
  maxsize :: int
  pool_q :: "Connection list"
  in_use :: "Connection fset"

text \<open>
  The pool together with what its methods act on outside the object: the heap of stream
  readers, the writers on which \<^verbatim>\<open>close()\<close> was called, and the log of connector
  invocations (each with the arguments it was given).
\<close>

record world = MemcachePool +
  readers :: "nat \<Rightarrow> StreamReader"
  closed :: "nat \<Rightarrow> bool"
  calls :: "(Connector \<times> conn_args_t) list"

section \<open>Construction\<close>

text \<open>\<^verbatim>\<open>__init__\<close>: \<^verbatim>\<open>conn_args or {}\<close> is the empty dict for \<^verbatim>\<open>None\<close> (and for an empty
  dict). \<^verbatim>\<open>if not connector\<close> tests the truth value: a connector that is \<^verbatim>\<open>None\<close>, or a
  callable that is false, is replaced by \<^verbatim>\<open>asyncio.open_connection\<close>, and only then host
  and port are stored.\<close>

definition init ::
  "string \<Rightarrow> int \<Rightarrow> int \<Rightarrow> int \<Rightarrow> conn_args_t option \<Rightarrow> Connector option \<Rightarrow> MemcachePool" where
  "init host port minsize' maxsize' conn_args' connector' =
     (let ca = (case conn_args' of None \<Rightarrow> Map.empty | Some d \<Rightarrow> d) in
      if (case connector' of None \<Rightarrow> True | Some k \<Rightarrow> \<not> truthy k) then
        \<lparr>conn_args = ca(''host'' \<mapsto> PyStr host, ''port'' \<mapsto> PyInt port),
         connector = OpenConnection,
         minsize = minsize', maxsize = maxsize', pool_q = [], in_use = {||}\<rparr>
      else
        \<lparr>conn_args = ca,
         connector = (case connector' of None \<Rightarrow> OpenConnection | Some k \<Rightarrow> k),
         minsize = minsize', maxsize = maxsize', pool_q = [], in_use = {||}\<rparr>)"

text \<open>The keyword arguments a caller may pass to \<^verbatim>\<open>unix\<close>: each is absent (\<open>None\<close>) or
  present; \<^verbatim>\<open>conn_args\<close> and \<^verbatim>\<open>connector\<close> may be present with the value \<^verbatim>\<open>None\<close>.\<close>

record kwargs =
  kw_host :: "string option"
  kw_port :: "int option"
  kw_minsize :: "int option"
  kw_maxsize :: "int option"
  kw_conn_args :: "conn_args_t option option"
  kw_connector :: "Connector option option"

text \<open>\<^verbatim>\<open>cls(**kwargs)\<close>: host, port, minsize and maxsize have no default, a missing one
  raises \<^verbatim>\<open>TypeError\<close>; \<^verbatim>\<open>conn_args\<close> and \<^verbatim>\<open>connector\<close> default to \<^verbatim>\<open>None\<close>.\<close>

definition call_cls :: "kwargs \<Rightarrow> error + MemcachePool" where
  "call_cls kw =
     (case (kw_host kw, kw_port kw, kw_minsize kw, kw_maxsize kw) of
        (Some h, Some p, Some m, Some M) \<Rightarrow>
          Inr (init h p m M
                 (case kw_conn_args kw of None \<Rightarrow> None | Some a \<Rightarrow> a)
                 (case kw_connector kw of None \<Rightarrow> None | Some k \<Rightarrow> k))
      | _ \<Rightarrow> Inl TypeError)"

text \<open>\<^verbatim>\<open>unix\<close>: \<^verbatim>\<open>kwargs.setdefault('conn_args', {})\<close> returns the value already present, so
  an explicit \<^verbatim>\<open>conn_args=None\<close> makes the item assignment raise \<^verbatim>\<open>TypeError\<close>.\<close>

definition unix :: "string \<Rightarrow> kwargs \<Rightarrow> error + MemcachePool" where
  "unix path kw =
     (let kw1 = kw\<lparr>kw_connector := Some (Some OpenUnixConnection)\<rparr> in
      case kw_conn_args kw1 of
        Some None \<Rightarrow> Inl TypeError
      | Some (Some d) \<Rightarrow>
          call_cls (kw1\<lparr>kw_conn_args := Some (Some (d(''path'' \<mapsto> PyStr path)))\<rparr>)
      | None \<Rightarrow>
          call_cls (kw1\<lparr>kw_conn_args := Some (Some (Map.empty(''path'' \<mapsto> PyStr path)))\<rparr>))"

section \<open>Pool operations\<close>

text \<open>\<^verbatim>\<open>size\<close>: \<^verbatim>\<open>self._pool.qsize() + len(self._in_use)\<close>.\<close>

definition pool_size :: "'a MemcachePool_scheme \<Rightarrow> int" where
  "pool_size p = int (length (pool_q p)) + int (fcard (in_use p))"

text \<open>The liveness test of lines 64 and 79:
  \<^verbatim>\<open>conn.reader.at_eof() or conn.reader.exception() is not None\<close>.\<close>

definition is_stale :: "'a world_scheme \<Rightarrow> Connection \<Rightarrow> bool" where
  "is_stale w c = (at_eof (readers w (reader c)) \<or> exn (readers w (reader c)) \<noteq> None)"

text \<open>\<^verbatim>\<open>reader.feed_eof(); writer.close()\<close>, as in \<^verbatim>\<open>_do_close\<close> and in the surplus branch
  of \<^verbatim>\<open>_create_new_conn\<close>.\<close>

definition close_streams :: "nat \<Rightarrow> nat \<Rightarrow> 'a world_scheme \<Rightarrow> 'a world_scheme" where
  "close_streams r wr w =
     w\<lparr>readers := (readers w)(r := feed_eof (readers w r)),
       closed := (closed w)(wr := True)\<rparr>"

definition do_close :: "Connection \<Rightarrow> 'a world_scheme \<Rightarrow> 'a world_scheme" where
  "do_close c w = close_streams (reader c) (writer c) w"

text \<open>\<^verbatim>\<open>release\<close> is an ordinary method: it runs to its end in one go. \<^verbatim>\<open>set.remove\<close> raises
  \<^verbatim>\<open>KeyError\<close> for a missing element, before anything is changed.\<close>

definition release :: "Connection \<Rightarrow> 'a world_scheme \<Rightarrow> error + 'a world_scheme" where
  "release c w =
     (if c |\<notin>| in_use w then Inl KeyError
      else
        let w1 = w\<lparr>in_use := in_use w |-| {|c|}\<rparr> in
        if is_stale w1 c then Inr (do_close c w1)
        else Inr (w1\<lparr>pool_q := pool_q w1 @ [c]\<rparr>))"

text \<open>
  \<^verbatim>\<open>_create_new_conn\<close> has one suspension point, the \<^verbatim>\<open>await\<close> of the connector. The part
  before it either returns \<^verbatim>\<open>None\<close> at once (\<open>False\<close>) or invokes the connector with
  \<^verbatim>\<open>**self.conn_args\<close> and suspends (\<open>True\<close>). The part after it receives what the
  connector produced: an exception or a reader and a writer.
\<close>

datatype connect_result = Connected nat nat | ConnectRaised error

definition create_new_conn_enter :: "'a world_scheme \<Rightarrow> bool \<times> 'a world_scheme" where
  "create_new_conn_enter w =
     (if pool_size w < maxsize w
      then (True, w\<lparr>calls := calls w @ [(connector w, conn_args w)]\<rparr>)
      else (False, w))"

definition create_new_conn_resume ::
  "connect_result \<Rightarrow> 'a world_scheme \<Rightarrow> (error + Connection option) \<times> 'a world_scheme" where
  "create_new_conn_resume res w =
     (case res of
        ConnectRaised e \<Rightarrow> (Inl e, w)
      | Connected r wr \<Rightarrow>
          if pool_size w < maxsize w then (Inr (Some (Connection r wr)), w)
          else (Inr None, close_streams r wr w))"

text \<open>
  \<^verbatim>\<open>acquire\<close> can be suspended at three places: the connector awaited from the warm-up loop
  (line 56), \<^verbatim>\<open>self._pool.get()\<close> on an empty queue (line 63), and the connector awaited
  for a replacement (line 66). Between two of them it runs without interruption.
\<close>

datatype acq_pc = WarmConnect | Getting | SelConnect

datatype outcome = Suspended acq_pc | Returned Connection | Raised error

text \<open>The selection loop \<^verbatim>\<open>while not conn\<close> from its head (lines 62 to 71). A
  \<^verbatim>\<open>Connection\<close> is a non-empty tuple, hence truthy: the loop repeats only on \<^verbatim>\<open>None\<close>.\<close>

function select_loop :: "'a world_scheme \<Rightarrow> outcome \<times> 'a world_scheme" where
  "select_loop w =
     (case pool_q w of
        [] \<Rightarrow> (Suspended Getting, w)
      | c # q \<Rightarrow>
          let w1 = w\<lparr>pool_q := q\<rparr> in
          if is_stale w1 c then
            (case create_new_conn_enter (do_close c w1) of
               (True, w2) \<Rightarrow> (Suspended SelConnect, w2)
             | (False, w2) \<Rightarrow> select_loop w2)
          else (Returned c, w1\<lparr>in_use := finsert c (in_use w1)\<rparr>))"
  by pat_completeness auto
termination
  by (relation "measure (\<lambda>w. length (pool_q w))")
     (auto simp: create_new_conn_enter_def do_close_def close_streams_def split: if_splits)

declare select_loop.simps [simp del]

text \<open>The warm-up loop from its head (lines 55 to 59), falling through to the selection
  loop when the condition fails or creation returns \<^verbatim>\<open>None\<close>.\<close>

definition warm_loop :: "'a world_scheme \<Rightarrow> outcome \<times> 'a world_scheme" where
  "warm_loop w =
     (if pool_size w = 0 \<or> pool_size w < minsize w then
        (case create_new_conn_enter w of
           (True, w1) \<Rightarrow> (Suspended WarmConnect, w1)
         | (False, w1) \<Rightarrow> select_loop w1)
      else select_loop w)"

definition acquire :: "'a world_scheme \<Rightarrow> outcome \<times> 'a world_scheme" where
  "acquire w = warm_loop w"

text \<open>Resuming after the connector awaited at line 56: an exception leaves
  \<^verbatim>\<open>acquire\<close>; \<^verbatim>\<open>None\<close> breaks out of the warm-up loop; a connection is put at the tail
  of the queue and the loop goes on.\<close>

definition resume_warm :: "connect_result \<Rightarrow> 'a world_scheme \<Rightarrow> outcome \<times> 'a world_scheme" where
  "resume_warm res w =
     (case create_new_conn_resume res w of
        (Inl e, w1) \<Rightarrow> (Raised e, w1)
      | (Inr None, w1) \<Rightarrow> select_loop w1
      | (Inr (Some c), w1) \<Rightarrow> warm_loop (w1\<lparr>pool_q := pool_q w1 @ [c]\<rparr>))"

text \<open>Resuming after the connector awaited at line 66: the new connection ends the
  selection loop and goes to lines 70 and 71; \<^verbatim>\<open>None\<close> repeats the loop.\<close>

definition resume_select :: "connect_result \<Rightarrow> 'a world_scheme \<Rightarrow> outcome \<times> 'a world_scheme" where
  "resume_select res w =
     (case create_new_conn_resume res w of
        (Inl e, w1) \<Rightarrow> (Raised e, w1)
      | (Inr None, w1) \<Rightarrow> select_loop w1
      | (Inr (Some c), w1) \<Rightarrow> (Returned c, w1\<lparr>in_use := finsert c (in_use w1)\<rparr>))"

text \<open>\<^verbatim>\<open>clear\<close>: the queue is not empty when \<^verbatim>\<open>get()\<close> is awaited, so nothing suspends.\<close>

fun close_all :: "Connection list \<Rightarrow> 'a world_scheme \<Rightarrow> 'a world_scheme" where
  "close_all [] w = w"
| "close_all (c # cs) w = close_all cs (do_close c w)"

definition clear :: "'a world_scheme \<Rightarrow> 'a world_scheme" where
  "clear w = close_all (pool_q w) (w\<lparr>pool_q := []\<rparr>)"

section \<open>Interleaved callers\<close>

text \<open>
  Tasks run on one thread and give up control only at the suspension points above, so a
  run of the program is a sequence of events, each of which executes one uninterrupted
  piece of one task. A task is a caller of the pool: it is outside the pool, suspended
  inside \<^verbatim>\<open>acquire\<close>, in possession of the connection \<^verbatim>\<open>acquire\<close> returned to it, or it has
  seen \<^verbatim>\<open>acquire\<close> raise.
\<close>

datatype task = Idle | Awaiting acq_pc | Holding Connection | Failed error

record system = world +
  tasks :: "nat \<Rightarrow> task"

fun task_of :: "outcome \<Rightarrow> task" where
  "task_of (Suspended pc) = Awaiting pc"
| "task_of (Returned c) = Holding c"
| "task_of (Raised e) = Failed e"

definition settle :: "nat \<Rightarrow> outcome \<times> system \<Rightarrow> system" where
  "settle t r = (snd r)\<lparr>tasks := (tasks (snd r))(t := task_of (fst r))\<rparr>"

datatype event =
    CallAcquire nat
  | ConnectorReturns nat nat nat
  | ConnectorRaises nat error
  | WakeGetter nat
  | CallRelease nat Connection
  | CallClear
  | ReaderChanges nat StreamReader

text \<open>
  One event. An event that is not possible in the state (a connector result for a task
  that awaits none, a call by a suspended task) leaves the state as it is. A call of
  \<^verbatim>\<open>release\<close> that raises changes nothing. \<open>ReaderChanges\<close> is the outside world acting on
  a stream: data arriving or being read, the peer closing, an I/O error.
\<close>

fun step :: "event \<Rightarrow> system \<Rightarrow> system" where
  "step (CallAcquire t) s =
     (case tasks s t of
        Idle \<Rightarrow> settle t (acquire s)
      | Failed e \<Rightarrow> settle t (acquire s)
      | _ \<Rightarrow> s)"
| "step (ConnectorReturns t r wr) s =
     (case tasks s t of
        Awaiting WarmConnect \<Rightarrow> settle t (resume_warm (Connected r wr) s)
      | Awaiting SelConnect \<Rightarrow> settle t (resume_select (Connected r wr) s)
      | _ \<Rightarrow> s)"
| "step (ConnectorRaises t e) s =
     (case tasks s t of
        Awaiting WarmConnect \<Rightarrow> settle t (resume_warm (ConnectRaised e) s)
      | Awaiting SelConnect \<Rightarrow> settle t (resume_select (ConnectRaised e) s)
      | _ \<Rightarrow> s)"
| "step (WakeGetter t) s =
     (case tasks s t of
        Awaiting Getting \<Rightarrow> settle t (select_loop s)
      | _ \<Rightarrow> s)"
| "step (CallRelease t c) s =
     (case tasks s t of
        Awaiting pc \<Rightarrow> s
      | _ \<Rightarrow>
          (case release c s of
             Inl e \<Rightarrow> s
           | Inr s1 \<Rightarrow>
               if tasks s t = Holding c then s1\<lparr>tasks := (tasks s1)(t := Idle)\<rparr> else s1))"
| "step CallClear s = clear s"
| "step (ReaderChanges r rd) s = s\<lparr>readers := (readers s)(r := rd)\<rparr>"

fun exec :: "event list \<Rightarrow> system \<Rightarrow> system" where
  "exec [] s = s"
| "exec (e # es) s = exec es (step e s)"

text \<open>The system right after construction: no task is inside the pool, nothing was closed
  or connected; the readers are in any state \<open>h\<close>.\<close>

definition boot :: "MemcachePool \<Rightarrow> (nat \<Rightarrow> StreamReader) \<Rightarrow> system" where
  "boot p h =
     \<lparr>conn_args = conn_args p, connector = connector p,
      minsize = minsize p, maxsize = maxsize p,
      pool_q = pool_q p, in_use = in_use p,
      readers = h, closed = (\<lambda>_. False), calls = [], tasks = (\<lambda>_. Idle)\<rparr>"

text \<open>Stream states used in the examples.\<close>

definition healthy :: StreamReader where
  "healthy = \<lparr>eof_fed = False, buffered = [], exn = None\<rparr>"

definition ended :: StreamReader where
  "ended = \<lparr>eof_fed = True, buffered = [], exn = None\<rparr>"

definition example_pool :: "int \<Rightarrow> int \<Rightarrow> MemcachePool" where
  "example_pool m M = init ''localhost'' 11211 m M None None"

definition w_one :: "int \<Rightarrow> world" where
  "w_one M = \<lparr>conn_args = Map.empty, connector = OpenConnection, minsize = 0, maxsize = M,
     pool_q = [Connection 1 2], in_use = {||},
     readers = (\<lambda>_. healthy), closed = (\<lambda>_. False), calls = []\<rparr>"

definition w_held :: "StreamReader \<Rightarrow> world" where
  "w_held rd = \<lparr>conn_args = Map.empty, connector = OpenConnection, minsize = 0, maxsize = 2,
     pool_q = [Connection 1 2], in_use = {|Connection 3 4|},
     readers = (\<lambda>_. rd), closed = (\<lambda>_. False), calls = []\<rparr>"

definition s_boot :: "int \<Rightarrow> int \<Rightarrow> StreamReader \<Rightarrow> system" where
  "s_boot m M rd = boot (example_pool m M) (\<lambda>_. rd)"

definition w_dead :: world where
  "w_dead = \<lparr>conn_args = Map.empty, connector = OpenConnection, minsize = 0, maxsize = 1,
     pool_q = [Connection 1 2], in_use = {||},
     readers = (\<lambda>_. ended), closed = (\<lambda>_. False), calls = []\<rparr>"

definition kw_min :: kwargs where
  "kw_min = \<lparr>kw_host = Some ''unused'', kw_port = Some 0, kw_minsize = Some 1,
     kw_maxsize = Some 2, kw_conn_args = None, kw_connector = None\<rparr>"

text \<open>The state of a pool that holds nothing and never connected, with bound zero: every
  task is outside the pool or waiting at the empty queue.\<close>

definition drained :: "system \<Rightarrow> bool" where
  "drained s = (maxsize s = 0 \<and> pool_q s = [] \<and> in_use s = {||} \<and> calls s = [] \<and>
     (\<forall>t. tasks s t = Idle \<or> tasks s t = Awaiting Getting))"

text \<open>Three callers enter a pool with bounds 1 and 2 before any connector has answered;
  then the three connectors answer in turn.\<close>

definition race :: "event list" where
  "race = [CallAcquire 0, CallAcquire 1, CallAcquire 2,
           ConnectorReturns 0 1 2, ConnectorReturns 1 3 4, ConnectorReturns 2 5 6]"

text \<open>
  Conditions on a run. A connector establishes a new transport: the streams it returns
  are new objects, so the connection built from them equals none that the pool holds
  (\<open>new_streams\<close>, \<open>fresh_run\<close>). A caller releases only the connection that \<^verbatim>\<open>acquire\<close>
  returned to it and that it has not released yet (\<open>own_release\<close>); a run in which both
  hold at every event is \<open>orderly_run\<close>.
\<close>

fun new_streams :: "event \<Rightarrow> system \<Rightarrow> bool" where
  "new_streams (ConnectorReturns t r wr) s =
     (Connection r wr \<notin> set (pool_q s) \<and> Connection r wr |\<notin>| in_use s)"
| "new_streams e s = True"

fun own_release :: "event \<Rightarrow> system \<Rightarrow> bool" where
  "own_release (CallRelease t c) s = (tasks s t = Holding c)"
| "own_release e s = True"

fun fresh_run :: "event list \<Rightarrow> system \<Rightarrow> bool" where
  "fresh_run [] s = True"
| "fresh_run (e # es) s = (new_streams e s \<and> fresh_run es (step e s))"

fun orderly_run :: "event list \<Rightarrow> system \<Rightarrow> bool" where
  "orderly_run [] s = True"
| "orderly_run (e # es) s = (new_streams e s \<and> own_release e s \<and> orderly_run es (step e s))"

definition fresh_result :: "'a world_scheme \<Rightarrow> connect_result \<Rightarrow> bool" where
  "fresh_result w res =
     (case res of
        Connected r wr \<Rightarrow> Connection r wr \<notin> set (pool_q w) \<and> Connection r wr |\<notin>| in_use w
      | ConnectRaised e \<Rightarrow> True)"

text \<open>The queue holds no connection twice and none that is in the in-use set.\<close>

definition pool_inv :: "'a MemcachePool_scheme \<Rightarrow> bool" where
  "pool_inv p = (distinct (pool_q p) \<and> (\<forall>c \<in> set (pool_q p). c |\<notin>| in_use p))"

text \<open>Every connection a task holds is in the in-use set, and no two tasks hold the same
  connection.\<close>

definition holders_inv :: "system \<Rightarrow> bool" where
  "holders_inv s =
     ((\<forall>t c. tasks s t = Holding c \<longrightarrow> c |\<in>| in_use s) \<and>
      (\<forall>t t' c. tasks s t = Holding c \<and> tasks s t' = Holding c \<longrightarrow> t = t'))"

text \<open>What one uninterrupted piece of \<^verbatim>\<open>acquire\<close> does to the in-use set \<open>U\<close> it started
  from: a returned connection was not in it and is added, otherwise it is unchanged.\<close>

definition acq_post :: "Connection fset \<Rightarrow> outcome \<times> 'a world_scheme \<Rightarrow> bool" where
  "acq_post U r =
     (pool_inv (snd r) \<and>
      (case fst r of
         Returned c \<Rightarrow> c |\<notin>| U \<and> in_use (snd r) = finsert c U
       | _ \<Rightarrow> in_use (snd r) = U))"

text \<open>The three callers of \<open>race\<close>, then the first one gives its connection back and the
  waiting third one takes it.\<close>

definition handover :: "event list" where
  "handover = race @ [CallRelease 0 (Connection 1 2), WakeGetter 2]"

text \<open>
  One call of \<^verbatim>\<open>acquire\<close> with no other task running: whenever it awaits the connector, the
  next answer of the list is delivered at once. Suspended at the empty queue it stays
  there, since nobody else can fill the queue; when the list is used up the connector
  does not answer any more.
\<close>

fun drive :: "connect_result list \<Rightarrow> outcome \<times> 'a world_scheme \<Rightarrow> outcome \<times> 'a world_scheme" where
  "drive [] ow = ow"
| "drive (r # rs) ow =
     (case fst ow of
        Suspended WarmConnect \<Rightarrow> drive rs (resume_warm r (snd ow))
      | Suspended SelConnect \<Rightarrow> drive rs (resume_select r (snd ow))
      | _ \<Rightarrow> ow)"

definition acquire_alone :: "connect_result list \<Rightarrow> 'a world_scheme \<Rightarrow> outcome \<times> 'a world_scheme" where
  "acquire_alone rs w = drive rs (acquire w)"

text \<open>A connector that succeeds with a healthy connection: the reader it returns is not
  at end-of-file and has no exception recorded.\<close>

definition live_result :: "'a world_scheme \<Rightarrow> connect_result \<Rightarrow> bool" where
  "live_result w res =
     (case res of Connected r wr \<Rightarrow> \<not> is_stale w (Connection r wr) | ConnectRaised e \<Rightarrow> False)"

text \<open>The pool during a warm-up that runs alone: nothing is checked out, the bounds are
  ordered, the queued connections and the answers still to come are healthy.\<close>

definition warm_state :: "'a world_scheme \<Rightarrow> connect_result list \<Rightarrow> bool" where
  "warm_state w rs =
     (in_use w = {||} \<and> minsize w \<le> maxsize w \<and>
      (\<forall>c \<in> set (pool_q w). \<not> is_stale w c) \<and> (\<forall>res \<in> set rs. live_result w res))"

definition three_answers :: "connect_result list" where
  "three_answers = [Connected 1 2, Connected 3 4, Connected 5 6]"

text \<open>
  A \<^verbatim>\<open>Connection\<close> object as Python has it: the tuple object has an identity of its own
  (\<open>ident\<close>, what \<^verbatim>\<open>is\<close> compares) besides the reader and the writer it holds. \<^verbatim>\<open>==\<close> and
  \<^verbatim>\<open>hash\<close> of a \<^verbatim>\<open>NamedTuple\<close> are those of \<^verbatim>\<open>tuple\<close> and look at the components only, so the
  set \<^verbatim>\<open>_in_use\<close> is determined by the contents of the tuples put into it: \<open>set_add\<close>,
  \<open>set_contains\<close> and \<open>release_handle\<close> are \<^verbatim>\<open>add\<close>, \<^verbatim>\<open>in\<close> and \<^verbatim>\<open>release\<close> on such objects.
\<close>

record handle =
  ident :: nat
  conn :: Connection

definition py_is :: "handle \<Rightarrow> handle \<Rightarrow> bool" where
  "py_is a b = (ident a = ident b)"

definition py_eq :: "handle \<Rightarrow> handle \<Rightarrow> bool" where
  "py_eq a b = (conn a = conn b)"

definition set_add :: "handle \<Rightarrow> Connection fset \<Rightarrow> Connection fset" where
  "set_add a S = finsert (conn a) S"

definition set_contains :: "handle \<Rightarrow> Connection fset \<Rightarrow> bool" where
  "set_contains a S = (conn a |\<in>| S)"

definition release_handle :: "handle \<Rightarrow> 'a world_scheme \<Rightarrow> error + 'a world_scheme" where
  "release_handle a w = release (conn a) w"

text \<open>Two tuple objects built over the same reader and writer, and one over other
  streams.\<close>

definition first_tuple :: handle where
  "first_tuple = \<lparr>ident = 10, conn = Connection 3 4\<rparr>"

definition second_tuple :: handle where
  "second_tuple = \<lparr>ident = 11, conn = Connection 3 4\<rparr>"

definition third_tuple :: handle where
  "third_tuple = \<lparr>ident = 12, conn = Connection 5 6\<rparr>"

section \<open>Creation of connections\<close>

lemma pool_size_simps [simp]:
  "pool_size (w\<lparr>readers := x\<rparr>) = pool_size w"
  "pool_size (w\<lparr>closed := y\<rparr>) = pool_size w"
  "pool_size (w\<lparr>calls := z\<rparr>) = pool_size w"
  by (simp_all add: pool_size_def)

text \<open>
  C3. \<^verbatim>\<open>_create_new_conn\<close> returns \<^verbatim>\<open>None\<close> at once, the connector not invoked (the log of
  invocations and the rest of the state unchanged), when \<open>size() \<ge> maxsize\<close> at entry.
  Otherwise it invokes the connector with \<open>conn_args\<close>. When the connector has returned a
  reader and a writer, the bound is checked again: if it holds, the new connection is
  returned and nothing else changes; if not, the reader is fed end-of-file, the writer is
  closed, and \<^verbatim>\<open>None\<close> is returned, with queue and in-use set as they were.
\<close>

theorem create_new_conn_spec:
  "(maxsize w \<le> pool_size w \<longrightarrow> create_new_conn_enter w = (False, w)) \<and>
   (pool_size w < maxsize w \<longrightarrow>
      create_new_conn_enter w = (True, w\<lparr>calls := calls w @ [(connector w, conn_args w)]\<rparr>)) \<and>
   (pool_size w < maxsize w \<longrightarrow>
      create_new_conn_resume (Connected r wr) w = (Inr (Some (Connection r wr)), w)) \<and>
   (maxsize w \<le> pool_size w \<longrightarrow>
      create_new_conn_resume (Connected r wr) w = (Inr None, close_streams r wr w) \<and>
      eof_fed (readers (close_streams r wr w) r) \<and> closed (close_streams r wr w) wr \<and>
      pool_q (close_streams r wr w) = pool_q w \<and> in_use (close_streams r wr w) = in_use w \<and>
      calls (close_streams r wr w) = calls w)"
  by (simp add: create_new_conn_enter_def create_new_conn_resume_def close_streams_def
      feed_eof_def)

theorem create_new_conn_spec_witness:
  "maxsize (w_one 1) \<le> pool_size (w_one 1) \<and> pool_size (w_one 2) < maxsize (w_one 2) \<and>
   create_new_conn_enter (w_one 1) = (False, w_one 1) \<and>
   fst (create_new_conn_enter (w_one 2)) \<and>
   calls (snd (create_new_conn_enter (w_one 2))) = [(OpenConnection, Map.empty)] \<and>
   fst (create_new_conn_resume (Connected 3 4) (w_one 2)) = Inr (Some (Connection 3 4)) \<and>
   fst (create_new_conn_resume (Connected 3 4) (w_one 1)) = Inr None \<and>
   closed (snd (create_new_conn_resume (Connected 3 4) (w_one 1))) 4"
  using create_new_conn_spec [of "w_one 1" 3 4] create_new_conn_spec [of "w_one 2" 3 4]
  by (simp add: w_one_def pool_size_def)

lemmas run_defs = s_boot_def boot_def example_pool_def init_def acquire_def warm_loop_def
  create_new_conn_enter_def create_new_conn_resume_def resume_warm_def resume_select_def
  pool_size_def settle_def select_loop.simps is_stale_def at_eof_def healthy_def ended_def
  release_def do_close_def close_streams_def feed_eof_def fcard_finsert_if fcard_fempty Let_def

section \<open>Release\<close>

text \<open>
  C6. \<^verbatim>\<open>release(conn)\<close> raises \<^verbatim>\<open>KeyError\<close> when \<open>conn\<close> is not in the in-use set. When it
  is, the call succeeds, \<open>conn\<close> leaves the in-use set, no connector is invoked, and
  exactly one of two things happens: if the reader is at end-of-file or has an exception
  recorded, the connection is closed and the queue is unchanged; otherwise \<open>conn\<close> is
  appended at the tail of the queue and no stream is touched. \<open>release\<close> is a function
  from state to state: there is no suspension point inside it.
\<close>

theorem release_spec:
  "(c |\<notin>| in_use w \<longrightarrow> release c w = Inl KeyError) \<and>
   (c |\<in>| in_use w \<longrightarrow>
      (\<exists>w'. release c w = Inr w' \<and> in_use w' = in_use w |-| {|c|} \<and> c |\<notin>| in_use w' \<and>
         calls w' = calls w \<and>
         (is_stale w c \<longrightarrow>
            pool_q w' = pool_q w \<and> eof_fed (readers w' (reader c)) \<and> closed w' (writer c)) \<and>
         (\<not> is_stale w c \<longrightarrow>
            pool_q w' = pool_q w @ [c] \<and> readers w' = readers w \<and> closed w' = closed w)))"
  by (simp add: release_def is_stale_def do_close_def close_streams_def feed_eof_def Let_def)

theorem release_spec_witness:
  "Connection 5 6 |\<notin>| in_use (w_held healthy) \<and>
   release (Connection 5 6) (w_held healthy) = Inl KeyError \<and>
   Connection 3 4 |\<in>| in_use (w_held healthy) \<and> \<not> is_stale (w_held healthy) (Connection 3 4) \<and>
   (\<exists>w'. release (Connection 3 4) (w_held healthy) = Inr w' \<and> in_use w' = {||} \<and>
      pool_q w' = [Connection 1 2, Connection 3 4] \<and> \<not> closed w' 4) \<and>
   is_stale (w_held ended) (Connection 3 4) \<and>
   (\<exists>w'. release (Connection 3 4) (w_held ended) = Inr w' \<and> in_use w' = {||} \<and>
      pool_q w' = [Connection 1 2] \<and> closed w' 4)"
  using release_spec [of "Connection 5 6" "w_held healthy"]
    release_spec [of "Connection 3 4" "w_held healthy"]
    release_spec [of "Connection 3 4" "w_held ended"]
  by (auto simp add: w_held_def is_stale_def at_eof_def healthy_def ended_def)

section \<open>Failure of the connector\<close>

text \<open>
  C7. When the connector raises \<open>e\<close> at either place where \<^verbatim>\<open>acquire\<close> awaits it,
  \<^verbatim>\<open>acquire\<close> ends by raising the same \<open>e\<close>, and the state (queue, in-use set, streams,
  log of connector invocations) is exactly the state in which the connector was awaited;
  the invocation itself had changed neither queue nor in-use set. For the system of
  tasks: the awaiting task becomes \<open>Failed e\<close> and nothing else changes, and after that
  no connector result or wake-up has any effect for that task: the call is over, there
  is no retry.
\<close>

theorem connector_failure_propagates:
  "resume_warm (ConnectRaised e) w = (Raised e, w) \<and>
   resume_select (ConnectRaised e) w = (Raised e, w) \<and>
   (create_new_conn_enter w = (b, w') \<longrightarrow> pool_q w' = pool_q w \<and> in_use w' = in_use w) \<and>
   (tasks s t = Awaiting WarmConnect \<or> tasks s t = Awaiting SelConnect \<longrightarrow>
      step (ConnectorRaises t e) s = s\<lparr>tasks := (tasks s)(t := Failed e)\<rparr>) \<and>
   (tasks s t = Failed e \<longrightarrow>
      step (ConnectorReturns t r wr) s = s \<and> step (ConnectorRaises t e') s = s \<and>
      step (WakeGetter t) s = s)"
  by (auto simp add: resume_warm_def resume_select_def create_new_conn_resume_def settle_def
      create_new_conn_enter_def split: if_splits)

theorem connector_failure_propagates_witness:
  "tasks (step (CallAcquire 0) (s_boot 1 2 healthy)) 0 = Awaiting WarmConnect \<and>
   step (ConnectorRaises 0 (ConnectorError ''refused'')) (step (CallAcquire 0) (s_boot 1 2 healthy))
     = (step (CallAcquire 0) (s_boot 1 2 healthy))\<lparr>tasks :=
          (tasks (step (CallAcquire 0) (s_boot 1 2 healthy)))(0 := Failed (ConnectorError ''refused''))\<rparr> \<and>
   pool_q (step (ConnectorRaises 0 (ConnectorError ''refused'')) (step (CallAcquire 0) (s_boot 1 2 healthy))) = [] \<and>
   length (calls (exec [CallAcquire 0, ConnectorRaises 0 (ConnectorError ''refused''), ConnectorReturns 0 1 2, WakeGetter 0]
      (s_boot 1 2 healthy))) = 1"
proof -
  define s1 where "s1 = step (CallAcquire 0) (s_boot 1 2 healthy)"
  define e where "e = ConnectorError ''refused''"
  define s2 where "s2 = s1\<lparr>tasks := (tasks s1)(0 := Failed e)\<rparr>"
  have a: "tasks s1 0 = Awaiting WarmConnect"
    and c: "length (calls s1) = 1" and q: "pool_q s1 = []"
    by (simp_all add: s1_def run_defs)
  from connector_failure_propagates [where s = s1 and t = 0 and e = e] a
  have b: "step (ConnectorRaises 0 e) s1 = s2"
    unfolding s2_def by blast
  have d: "tasks s2 0 = Failed e" by (simp add: s2_def)
  from connector_failure_propagates [where s = s2 and t = 0 and e = e and r = 1 and wr = 2] d
  have h: "step (ConnectorReturns 0 1 2) s2 = s2" "step (WakeGetter 0) s2 = s2"
    by blast+
  have x: "exec [CallAcquire 0, ConnectorRaises 0 e, ConnectorReturns 0 1 2, WakeGetter 0]
      (s_boot 1 2 healthy) = s2"
    by (simp only: exec.simps s1_def [symmetric] b h)
  have "tasks s1 0 = Awaiting WarmConnect \<and> step (ConnectorRaises 0 e) s1 = s2 \<and>
    pool_q (step (ConnectorRaises 0 e) s1) = [] \<and>
    length (calls (exec [CallAcquire 0, ConnectorRaises 0 e, ConnectorReturns 0 1 2, WakeGetter 0]
      (s_boot 1 2 healthy))) = 1"
    unfolding x b using a c q by (simp add: s2_def)
  then show ?thesis unfolding s2_def s1_def e_def .
qed

section \<open>Liveness checks in the selection loop\<close>

lemma is_stale_do_close: "is_stale w c \<Longrightarrow> is_stale (do_close d w) c"
  by (auto simp: is_stale_def do_close_def close_streams_def feed_eof_def at_eof_def)

lemma select_loop_returns_live:
  "select_loop w = (Returned c, w') \<Longrightarrow> \<not> is_stale w' c"
proof (induction w rule: select_loop.induct)
  case (1 w)
  show ?case
  proof (cases "pool_q w")
    case Nil
    with "1.prems" show ?thesis by (simp add: select_loop.simps)
  next
    case (Cons d q)
    show ?thesis
    proof (cases "is_stale (w\<lparr>pool_q := q\<rparr>) d")
      case True
      show ?thesis
      proof (cases "fst (create_new_conn_enter (do_close d (w\<lparr>pool_q := q\<rparr>)))")
        case True
        with \<open>is_stale (w\<lparr>pool_q := q\<rparr>) d\<close> Cons "1.prems" show ?thesis
          by (simp add: select_loop.simps [of w] split: prod.splits)
      next
        case False
        then obtain w2 where e: "create_new_conn_enter (do_close d (w\<lparr>pool_q := q\<rparr>)) = (False, w2)"
          by (cases "create_new_conn_enter (do_close d (w\<lparr>pool_q := q\<rparr>))") auto
        with True Cons "1.prems" have "select_loop w2 = (Returned c, w')"
          by (simp add: select_loop.simps [of w])
        with "1.IH" [OF Cons refl True e [symmetric] refl] show ?thesis by simp
      qed
    next
      case False
      with Cons "1.prems" show ?thesis
        by (auto simp add: select_loop.simps [of w] is_stale_def)
    qed
  qed
qed

text \<open>
  C9. A connection that the selection loop takes from the queue and returns was tested:
  it is not stale in the state \<^verbatim>\<open>acquire\<close> returns in. When the head of the queue is stale
  and the bound permits, it is closed and the connector is awaited. When the connector
  then returns and the bound still holds, the new connection is put into the in-use set
  and returned as it is, whatever the state of its reader: no test is applied to it.
\<close>

theorem replacement_not_checked:
  "(select_loop w = (Returned c, w') \<longrightarrow> \<not> is_stale w' c) \<and>
   (pool_q w = c # q \<and> is_stale w c \<and> pool_size (w\<lparr>pool_q := q\<rparr>) < maxsize w \<longrightarrow>
      select_loop w =
        (Suspended SelConnect,
         (do_close c (w\<lparr>pool_q := q\<rparr>))\<lparr>calls := calls w @ [(connector w, conn_args w)]\<rparr>)) \<and>
   (pool_size w < maxsize w \<longrightarrow>
      resume_select (Connected r wr) w =
        (Returned (Connection r wr), w\<lparr>in_use := finsert (Connection r wr) (in_use w)\<rparr>))"
proof (intro conjI impI)
  assume "select_loop w = (Returned c, w')"
  then show "\<not> is_stale w' c" by (rule select_loop_returns_live)
next
  assume "pool_q w = c # q \<and> is_stale w c \<and> pool_size (w\<lparr>pool_q := q\<rparr>) < maxsize w"
  then show "select_loop w =
        (Suspended SelConnect,
         (do_close c (w\<lparr>pool_q := q\<rparr>))\<lparr>calls := calls w @ [(connector w, conn_args w)]\<rparr>)"
    by (simp add: select_loop.simps [of w] is_stale_def create_new_conn_enter_def do_close_def
        close_streams_def pool_size_def)
next
  assume "pool_size w < maxsize w"
  then show "resume_select (Connected r wr) w =
        (Returned (Connection r wr), w\<lparr>in_use := finsert (Connection r wr) (in_use w)\<rparr>)"
    by (simp add: resume_select_def create_new_conn_resume_def)
qed

theorem replacement_not_checked_witness:
  "pool_q w_dead = [Connection 1 2] \<and> is_stale w_dead (Connection 1 2) \<and>
   pool_size (w_dead\<lparr>pool_q := []\<rparr>) < maxsize w_dead \<and>
   fst (select_loop w_dead) = Suspended SelConnect \<and>
   closed (snd (select_loop w_dead)) 2 \<and>
   is_stale (snd (select_loop w_dead)) (Connection 3 4) \<and>
   fst (resume_select (Connected 3 4) (snd (select_loop w_dead))) = Returned (Connection 3 4) \<and>
   in_use (snd (resume_select (Connected 3 4) (snd (select_loop w_dead)))) = {|Connection 3 4|} \<and>
   \<not> closed (snd (resume_select (Connected 3 4) (snd (select_loop w_dead)))) 4 \<and>
   select_loop (w_held healthy) = (Returned (Connection 1 2),
      (w_held healthy)\<lparr>pool_q := [], in_use := {|Connection 1 2, Connection 3 4|}\<rparr>) \<and>
   \<not> is_stale (w_held healthy) (Connection 1 2)"
proof -
  have a: "pool_q w_dead = [Connection 1 2] \<and> is_stale w_dead (Connection 1 2) \<and>
      pool_size (w_dead\<lparr>pool_q := []\<rparr>) < maxsize w_dead"
    by (simp add: w_dead_def is_stale_def at_eof_def ended_def pool_size_def fcard_fempty)
  with replacement_not_checked [where w = w_dead and c = "Connection 1 2" and q = "[]"]
  have b: "select_loop w_dead = (Suspended SelConnect,
         (do_close (Connection 1 2) (w_dead\<lparr>pool_q := []\<rparr>))\<lparr>calls := calls w_dead @ [(connector w_dead, conn_args w_dead)]\<rparr>)"
    by blast
  define w1 where "w1 = snd (select_loop w_dead)"
  have w1: "w1 = (do_close (Connection 1 2) (w_dead\<lparr>pool_q := []\<rparr>))\<lparr>calls := calls w_dead @ [(connector w_dead, conn_args w_dead)]\<rparr>"
    by (simp add: w1_def b)
  have c: "pool_size w1 < maxsize w1"
    by (simp add: w1 w_dead_def do_close_def close_streams_def pool_size_def fcard_fempty)
  with replacement_not_checked [where w = w1 and r = 3 and wr = 4]
  have d: "resume_select (Connected 3 4) w1 =
        (Returned (Connection 3 4), w1\<lparr>in_use := finsert (Connection 3 4) (in_use w1)\<rparr>)"
    by blast
  have e: "select_loop (w_held healthy) = (Returned (Connection 1 2),
      (w_held healthy)\<lparr>pool_q := [], in_use := {|Connection 1 2, Connection 3 4|}\<rparr>)"
    by (simp add: select_loop.simps w_held_def is_stale_def at_eof_def healthy_def)
  with replacement_not_checked [where w = "w_held healthy" and c = "Connection 1 2"]
  have f: "\<not> is_stale ((w_held healthy)\<lparr>pool_q := [], in_use := {|Connection 1 2, Connection 3 4|}\<rparr>) (Connection 1 2)"
    by blast
  have g: "is_stale w1 (Connection 3 4)" "closed w1 2" "in_use w1 = {||}" "\<not> closed w1 4"
    by (simp_all add: w1 w_dead_def do_close_def close_streams_def is_stale_def at_eof_def
        ended_def feed_eof_def)
  show ?thesis
    using a b d e f g unfolding w1_def [symmetric] by (simp add: is_stale_def)
qed

section \<open>Constructors\<close>

text \<open>
  C8. Whenever \<^verbatim>\<open>MemcachePool.unix(path, **kwargs)\<close> produces a pool, its connector is
  \<^verbatim>\<open>asyncio.open_unix_connection\<close>, its \<open>conn_args\<close> maps \<^verbatim>\<open>'path'\<close> to the given path,
  and the pool is the one the general constructor builds from the caller's host, port,
  minsize and maxsize, with that connector and with the caller's \<open>conn_args\<close> (or the empty
  dict) extended by the path. It does produce a pool when the four required arguments
  are given and \<open>conn_args\<close> is not passed as \<^verbatim>\<open>None\<close>. The general constructor without a
  connector uses \<^verbatim>\<open>asyncio.open_connection\<close> and its \<open>conn_args\<close> is the caller's (or the
  empty dict) with host and port stored, every other key as given; the same happens for
  a supplied connector that is false. A supplied connector that is true is kept, and
  \<open>conn_args\<close> is the caller's (or the empty dict) with nothing added.
\<close>

theorem unix_constructor:
  "(unix path kw = Inr p \<longrightarrow>
      connector p = OpenUnixConnection \<and> conn_args p ''path'' = Some (PyStr path) \<and>
      (\<exists>h pt m M.
         kw_host kw = Some h \<and> kw_port kw = Some pt \<and>
         kw_minsize kw = Some m \<and> kw_maxsize kw = Some M \<and>
         p = init h pt m M
               (Some ((case kw_conn_args kw of Some (Some d) \<Rightarrow> d | _ \<Rightarrow> Map.empty)
                        (''path'' \<mapsto> PyStr path)))
               (Some OpenUnixConnection))) \<and>
   (kw_host kw = Some h \<and> kw_port kw = Some pt \<and> kw_minsize kw = Some m \<and>
    kw_maxsize kw = Some M \<and> kw_conn_args kw \<noteq> Some None \<longrightarrow> (\<exists>p'. unix path kw = Inr p')) \<and>
   connector (init h pt m M ca None) = OpenConnection \<and>
   conn_args (init h pt m M ca None) ''host'' = Some (PyStr h) \<and>
   conn_args (init h pt m M ca None) ''port'' = Some (PyInt pt) \<and>
   conn_args (init h pt m M ca None) =
     (case ca of None \<Rightarrow> Map.empty | Some d \<Rightarrow> d)
       (''host'' \<mapsto> PyStr h, ''port'' \<mapsto> PyInt pt) \<and>
   (\<not> truthy k \<longrightarrow> init h pt m M ca (Some k) = init h pt m M ca None) \<and>
   (truthy k \<longrightarrow>
      connector (init h pt m M ca (Some k)) = k \<and>
      conn_args (init h pt m M ca (Some k)) = (case ca of None \<Rightarrow> Map.empty | Some d \<Rightarrow> d))"
  by (auto simp add: unix_def call_cls_def init_def Let_def split: option.splits)

theorem unix_constructor_witness:
  "unix ''/tmp/memcached.sock'' kw_min =
     Inr \<lparr>conn_args = [''path'' \<mapsto> PyStr ''/tmp/memcached.sock''],
          connector = OpenUnixConnection, minsize = 1, maxsize = 2, pool_q = [], in_use = {||}\<rparr> \<and>
   unix ''/tmp/memcached.sock'' kw_min =
     Inr (init ''unused'' 0 1 2 (Some [''path'' \<mapsto> PyStr ''/tmp/memcached.sock''])
            (Some OpenUnixConnection)) \<and>
   kw_conn_args kw_min \<noteq> Some None \<and>
   unix ''/tmp/memcached.sock'' (kw_min\<lparr>kw_conn_args := Some None\<rparr>) = Inl TypeError \<and>
   unix ''/tmp/memcached.sock'' (kw_min\<lparr>kw_host := None\<rparr>) = Inl TypeError \<and>
   \<not> truthy (CustomConnector 7 False) \<and>
   init ''unused'' 0 1 2 (Some [''ssl'' \<mapsto> PyInt 1]) (Some (CustomConnector 7 False)) =
     \<lparr>conn_args = [''ssl'' \<mapsto> PyInt 1, ''host'' \<mapsto> PyStr ''unused'', ''port'' \<mapsto> PyInt 0],
      connector = OpenConnection, minsize = 1, maxsize = 2, pool_q = [], in_use = {||}\<rparr> \<and>
   truthy (CustomConnector 7 True) \<and>
   init ''unused'' 0 1 2 (Some [''ssl'' \<mapsto> PyInt 1]) (Some (CustomConnector 7 True)) =
     \<lparr>conn_args = [''ssl'' \<mapsto> PyInt 1],
      connector = CustomConnector 7 True, minsize = 1, maxsize = 2, pool_q = [], in_use = {||}\<rparr>"
  using unix_constructor [where kw = kw_min and path = "''/tmp/memcached.sock''"
      and p = "\<lparr>conn_args = [''path'' \<mapsto> PyStr ''/tmp/memcached.sock''],
          connector = OpenUnixConnection, minsize = 1, maxsize = 2, pool_q = [], in_use = {||}\<rparr>"
      and h = "''unused''" and pt = 0 and m = 1 and M = 2]
    unix_constructor [where h = "''unused''" and pt = 0 and m = 1 and M = 2
      and ca = "Some [''ssl'' \<mapsto> PyInt 1]" and k = "CustomConnector 7 False"]
    unix_constructor [where h = "''unused''" and pt = 0 and m = 1 and M = 2
      and ca = "Some [''ssl'' \<mapsto> PyInt 1]" and k = "CustomConnector 7 True"]
  by (simp add: kw_min_def unix_def call_cls_def init_def)

section \<open>A pool with bound zero\<close>

lemma pool_size_nonneg: "0 \<le> pool_size p"
  by (simp add: pool_size_def)

lemma create_enter_at_bound: "maxsize w \<le> pool_size w \<Longrightarrow> create_new_conn_enter w = (False, w)"
  by (simp add: create_new_conn_enter_def)

lemma select_loop_empty: "pool_q w = [] \<Longrightarrow> select_loop w = (Suspended Getting, w)"
  by (simp add: select_loop.simps)

lemma acquire_zero_max:
  assumes "maxsize w = 0" "pool_q w = []"
  shows "acquire w = (Suspended Getting, w)"
proof -
  have "create_new_conn_enter w = (False, w)"
    using assms pool_size_nonneg [of w] by (simp add: create_enter_at_bound)
  then show ?thesis
    using assms by (simp add: acquire_def warm_loop_def select_loop_empty)
qed

lemma drained_step: "drained s \<Longrightarrow> drained (step e s)"
proof (cases e)
  case (CallAcquire t)
  assume d: "drained s"
  then have "acquire s = (Suspended Getting, s)"
    by (simp add: drained_def acquire_zero_max)
  with d CallAcquire show ?thesis
    by (auto simp add: drained_def settle_def split: task.splits)
next
  case (ConnectorReturns t r wr)
  assume d: "drained s"
  then have "tasks s t = Idle \<or> tasks s t = Awaiting Getting" by (simp add: drained_def)
  with d ConnectorReturns show ?thesis by auto
next
  case (ConnectorRaises t x)
  assume d: "drained s"
  then have "tasks s t = Idle \<or> tasks s t = Awaiting Getting" by (simp add: drained_def)
  with d ConnectorRaises show ?thesis by auto
next
  case (WakeGetter t)
  assume d: "drained s"
  then have "select_loop s = (Suspended Getting, s)" by (simp add: drained_def select_loop_empty)
  with d WakeGetter show ?thesis
    by (auto simp add: drained_def settle_def split: task.splits acq_pc.splits)
next
  case (CallRelease t c)
  assume d: "drained s"
  then have "release c s = Inl KeyError" by (simp add: drained_def release_def)
  with d CallRelease show ?thesis by (simp split: task.splits)
next
  case CallClear
  assume d: "drained s"
  with CallClear show ?thesis by (simp add: drained_def clear_def)
next
  case (ReaderChanges r rd)
  assume d: "drained s"
  with ReaderChanges show ?thesis by (simp add: drained_def)
qed

lemma drained_exec: "drained s \<Longrightarrow> drained (exec es s)"
  by (induction es arbitrary: s) (simp_all add: drained_step)

lemma init_fields:
  "minsize (init h pt m M ca co) = m" "maxsize (init h pt m M ca co) = M"
  "pool_q (init h pt m M ca co) = []" "in_use (init h pt m M ca co) = {||}"
  by (simp_all add: init_def Let_def split: option.splits)

lemma drained_boot: "drained (boot (init h pt m 0 ca co) hp)"
  by (simp add: drained_def boot_def init_fields)

text \<open>
  C10. The constructor stores \<open>minsize\<close> and \<open>maxsize\<close> as given, whatever integers they
  are. With \<open>maxsize = 0\<close>, \<^verbatim>\<open>_create_new_conn\<close> returns \<^verbatim>\<open>None\<close> without invoking the
  connector in every state, and \<^verbatim>\<open>acquire\<close> with an empty queue changes nothing and
  suspends in \<^verbatim>\<open>self._pool.get()\<close>. In every run of a pool constructed with \<open>maxsize = 0\<close>
  the queue and the in-use set stay empty, the connector is never invoked, and every task
  is outside the pool or suspended at the empty queue: no \<^verbatim>\<open>acquire\<close> ever returns.
\<close>

theorem zero_maxsize_never_connects:
  "minsize (init h pt m M ca co) = m \<and> maxsize (init h pt m M ca co) = M \<and>
   (maxsize w = 0 \<longrightarrow> create_new_conn_enter w = (False, w)) \<and>
   (maxsize w = 0 \<and> pool_q w = [] \<longrightarrow> acquire w = (Suspended Getting, w)) \<and>
   pool_q (exec es (boot (init h pt m 0 ca co) hp)) = [] \<and>
   in_use (exec es (boot (init h pt m 0 ca co) hp)) = {||} \<and>
   calls (exec es (boot (init h pt m 0 ca co) hp)) = [] \<and>
   (\<forall>t. tasks (exec es (boot (init h pt m 0 ca co) hp)) t = Idle \<or>
        tasks (exec es (boot (init h pt m 0 ca co) hp)) t = Awaiting Getting)"
proof -
  have a: "minsize (init h pt m M ca co) = m \<and> maxsize (init h pt m M ca co) = M"
    by (simp add: init_fields)
  have b: "maxsize w = 0 \<longrightarrow> create_new_conn_enter w = (False, w)"
    using pool_size_nonneg [of w] by (simp add: create_enter_at_bound)
  have c: "maxsize w = 0 \<and> pool_q w = [] \<longrightarrow> acquire w = (Suspended Getting, w)"
    by (simp add: acquire_zero_max)
  have "drained (exec es (boot (init h pt m 0 ca co) hp))"
    by (rule drained_exec [OF drained_boot])
  with a b c show ?thesis unfolding drained_def by blast
qed

theorem zero_maxsize_never_connects_witness:
  "minsize (example_pool (- 3) (- 7)) = - 3 \<and> maxsize (example_pool (- 3) (- 7)) = - 7 \<and>
   maxsize (s_boot 2 0 healthy) = 0 \<and> pool_q (s_boot 2 0 healthy) = [] \<and>
   acquire (s_boot 2 0 healthy) = (Suspended Getting, s_boot 2 0 healthy) \<and>
   tasks (exec [CallAcquire 0, CallAcquire 1, WakeGetter 0] (s_boot 2 0 healthy)) 0 = Awaiting Getting \<and>
   tasks (exec [CallAcquire 0, CallAcquire 1, WakeGetter 0] (s_boot 2 0 healthy)) 1 = Awaiting Getting \<and>
   calls (exec [CallAcquire 0, CallAcquire 1, WakeGetter 0] (s_boot 2 0 healthy)) = []"
proof -
  have a: "maxsize (s_boot 2 0 healthy) = 0 \<and> pool_q (s_boot 2 0 healthy) = []"
    by (simp add: s_boot_def boot_def example_pool_def init_def)
  note z = zero_maxsize_never_connects [where w = "s_boot 2 0 healthy" and h = "''localhost''"
      and pt = 11211 and m = "- 3" and M = "- 7" and ca = None and co = None]
  have b: "acquire (s_boot 2 0 healthy) = (Suspended Getting, s_boot 2 0 healthy)"
    using z a by blast
  have c: "minsize (example_pool (- 3) (- 7)) = - 3 \<and> maxsize (example_pool (- 3) (- 7)) = - 7"
    using z unfolding example_pool_def by blast
  have d: "tasks (exec [CallAcquire 0, CallAcquire 1, WakeGetter 0] (s_boot 2 0 healthy)) 0 = Awaiting Getting \<and>
   tasks (exec [CallAcquire 0, CallAcquire 1, WakeGetter 0] (s_boot 2 0 healthy)) 1 = Awaiting Getting"
    by (simp add: run_defs)
  have e: "calls (exec [CallAcquire 0, CallAcquire 1, WakeGetter 0] (s_boot 2 0 healthy)) = []"
    using zero_maxsize_never_connects [where h = "''localhost''" and pt = 11211 and m = 2
        and ca = None and co = None and hp = "\<lambda>_. healthy"
        and es = "[CallAcquire 0, CallAcquire 1, WakeGetter 0]"]
    unfolding s_boot_def example_pool_def by blast
  from a b c d e show ?thesis by blast
qed

section \<open>The bound on the size of the pool\<close>

lemma select_loop_live:
  "pool_q w = c # q \<Longrightarrow> \<not> is_stale w c \<Longrightarrow>
   select_loop w = (Returned c, w\<lparr>pool_q := q, in_use := finsert c (in_use w)\<rparr>)"
  by (simp add: select_loop.simps [of w] is_stale_def)

lemma select_loop_replace:
  "pool_q w = c # q \<Longrightarrow> is_stale w c \<Longrightarrow> pool_size (w\<lparr>pool_q := q\<rparr>) < maxsize w \<Longrightarrow>
   select_loop w = (Suspended SelConnect,
     (do_close c (w\<lparr>pool_q := q\<rparr>))\<lparr>calls := calls w @ [(connector w, conn_args w)]\<rparr>)"
  by (simp add: select_loop.simps [of w] is_stale_def create_new_conn_enter_def do_close_def
      close_streams_def pool_size_def)

lemma select_loop_retry:
  "pool_q w = c # q \<Longrightarrow> is_stale w c \<Longrightarrow> maxsize w \<le> pool_size (w\<lparr>pool_q := q\<rparr>) \<Longrightarrow>
   select_loop w = select_loop (do_close c (w\<lparr>pool_q := q\<rparr>))"
  by (simp add: select_loop.simps [of w] is_stale_def create_new_conn_enter_def do_close_def
      close_streams_def pool_size_def)

lemma select_loop_induct2 [case_names empty live replace retry]:
  assumes "\<And>w. pool_q w = [] \<Longrightarrow> P w"
    and "\<And>w c q. pool_q w = c # q \<Longrightarrow> \<not> is_stale w c \<Longrightarrow> P w"
    and "\<And>w c q. pool_q w = c # q \<Longrightarrow> is_stale w c \<Longrightarrow>
           pool_size (w\<lparr>pool_q := q\<rparr>) < maxsize w \<Longrightarrow> P w"
    and "\<And>w c q. pool_q w = c # q \<Longrightarrow> is_stale w c \<Longrightarrow>
           maxsize w \<le> pool_size (w\<lparr>pool_q := q\<rparr>) \<Longrightarrow>
           P (do_close c (w\<lparr>pool_q := q\<rparr>)) \<Longrightarrow> P w"
  shows "P (w :: 'a world_scheme)"
proof (induction "length (pool_q w)" arbitrary: w)
  case 0
  then show ?case using assms(1) by simp
next
  case (Suc n)
  then obtain c q where cq: "pool_q w = c # q" and n: "length q = n"
    by (cases "pool_q w") auto
  show ?case
  proof (cases "is_stale w c")
    case False
    with cq show ?thesis by (rule assms(2))
  next
    case True
    show ?thesis
    proof (cases "pool_size (w\<lparr>pool_q := q\<rparr>) < maxsize w")
      case True
      with cq \<open>is_stale w c\<close> show ?thesis by (rule assms(3))
    next
      case False
      have p: "P (do_close c (w\<lparr>pool_q := q\<rparr>))"
        by (rule Suc.hyps(1)) (simp add: n do_close_def close_streams_def)
      from False have "maxsize w \<le> pool_size (w\<lparr>pool_q := q\<rparr>)" by simp
      with cq True show ?thesis using p by (rule assms(4))
    qed
  qed
qed

lemma do_close_fields [simp]:
  "pool_q (do_close c w) = pool_q w" "in_use (do_close c w) = in_use w"
  "maxsize (do_close c w) = maxsize w" "minsize (do_close c w) = minsize w"
  "calls (do_close c w) = calls w" "pool_size (do_close c w) = pool_size w"
  by (simp_all add: do_close_def close_streams_def)

lemma close_streams_fields [simp]:
  "pool_q (close_streams r wr w) = pool_q w" "in_use (close_streams r wr w) = in_use w"
  "maxsize (close_streams r wr w) = maxsize w" "minsize (close_streams r wr w) = minsize w"
  "calls (close_streams r wr w) = calls w" "pool_size (close_streams r wr w) = pool_size w"
  by (simp_all add: close_streams_def)

lemma select_loop_maxsize: "maxsize (snd (select_loop w)) = maxsize w"
proof (induction w rule: select_loop_induct2)
  case (empty w) then show ?case by (simp add: select_loop_empty)
next
  case (live w c q) then show ?case by (simp add: select_loop_live)
next
  case (replace w c q) then show ?case by (simp add: select_loop_replace)
next
  case (retry w c q) then show ?case by (simp add: select_loop_retry)
qed

lemma select_loop_size: "pool_size (snd (select_loop w)) \<le> pool_size w"
proof (induction w rule: select_loop_induct2)
  case (empty w) then show ?case by (simp add: select_loop_empty)
next
  case (live w c q) then show ?case
    by (simp add: select_loop_live pool_size_def fcard_finsert_if)
next
  case (replace w c q) then show ?case
    by (simp add: select_loop_replace) (simp add: pool_size_def)
next
  case (retry w c q)
  have "pool_size (w\<lparr>pool_q := q\<rparr>) \<le> pool_size w"
    using retry(1) by (simp add: pool_size_def)
  with retry show ?case by (simp add: select_loop_retry)
qed

lemma warm_loop_maxsize: "maxsize (snd (warm_loop w)) = maxsize w"
  by (simp add: warm_loop_def create_new_conn_enter_def select_loop_maxsize)

lemma warm_loop_size: "pool_size (snd (warm_loop w)) \<le> pool_size w"
  using select_loop_size [of w] by (simp add: warm_loop_def create_new_conn_enter_def)

lemma resume_warm_maxsize: "maxsize (snd (resume_warm res w)) = maxsize w"
  by (cases res)
    (simp_all add: resume_warm_def create_new_conn_resume_def warm_loop_maxsize select_loop_maxsize)

lemma resume_select_maxsize: "maxsize (snd (resume_select res w)) = maxsize w"
  by (cases res)
    (simp_all add: resume_select_def create_new_conn_resume_def select_loop_maxsize)

lemma resume_warm_bound:
  assumes "pool_size w \<le> maxsize w"
  shows "pool_size (snd (resume_warm res w)) \<le> maxsize w"
proof (cases res)
  case (ConnectRaised e)
  with assms show ?thesis by (simp add: resume_warm_def create_new_conn_resume_def)
next
  case (Connected r wr)
  show ?thesis
  proof (cases "pool_size w < maxsize w")
    case True
    have "pool_size (snd (warm_loop (w\<lparr>pool_q := pool_q w @ [Connection r wr]\<rparr>)))
        \<le> pool_size (w\<lparr>pool_q := pool_q w @ [Connection r wr]\<rparr>)"
      by (rule warm_loop_size)
    also have "\<dots> = pool_size w + 1" by (simp add: pool_size_def)
    finally show ?thesis
      using True Connected by (simp add: resume_warm_def create_new_conn_resume_def)
  next
    case False
    have "pool_size (snd (select_loop (close_streams r wr w))) \<le> pool_size w"
      using select_loop_size [of "close_streams r wr w"] by simp
    with False Connected assms show ?thesis
      by (simp add: resume_warm_def create_new_conn_resume_def)
  qed
qed

lemma resume_select_bound:
  assumes "pool_size w \<le> maxsize w"
  shows "pool_size (snd (resume_select res w)) \<le> maxsize w"
proof (cases res)
  case (ConnectRaised e)
  with assms show ?thesis by (simp add: resume_select_def create_new_conn_resume_def)
next
  case (Connected r wr)
  show ?thesis
  proof (cases "pool_size w < maxsize w")
    case True
    have "pool_size (w\<lparr>in_use := finsert (Connection r wr) (in_use w)\<rparr>) \<le> pool_size w + 1"
      by (simp add: pool_size_def fcard_finsert_if)
    with True Connected show ?thesis
      by (simp add: resume_select_def create_new_conn_resume_def)
  next
    case False
    have "pool_size (snd (select_loop (close_streams r wr w))) \<le> pool_size w"
      using select_loop_size [of "close_streams r wr w"] by simp
    with False Connected assms show ?thesis
      by (simp add: resume_select_def create_new_conn_resume_def)
  qed
qed

lemma release_bound:
  "release c w = Inr w' \<Longrightarrow> pool_size w' \<le> pool_size w \<and> maxsize w' = maxsize w"
proof -
  assume r: "release c w = Inr w'"
  then have c: "c |\<in>| in_use w" by (auto simp add: release_def split: if_splits)
  then have "Suc (fcard (in_use w |-| {|c|})) = fcard (in_use w)" by (rule fcard_Suc_fminus1)
  then have "int (fcard (in_use w |-| {|c|})) + 1 = int (fcard (in_use w))" by linarith
  with r c show ?thesis
    by (auto simp add: release_def Let_def pool_size_def split: if_splits)
qed

lemma close_all_fields [simp]:
  "pool_q (close_all cs w) = pool_q w" "in_use (close_all cs w) = in_use w"
  "maxsize (close_all cs w) = maxsize w"
  by (induction cs arbitrary: w) simp_all

lemma clear_bound: "pool_size (clear w) \<le> pool_size w \<and> maxsize (clear w) = maxsize w"
  by (simp add: clear_def pool_size_def)

lemma settle_fields [simp]:
  "pool_size (settle t r) = pool_size (snd r)" "maxsize (settle t r) = maxsize (snd r)"
  by (simp_all add: settle_def pool_size_def)

lemma step_bound:
  assumes "pool_size s \<le> maxsize s"
  shows "pool_size (step e s) \<le> maxsize s \<and> maxsize (step e s) = maxsize s"
proof (cases e)
  case (CallAcquire t)
  have "pool_size (snd (acquire s)) \<le> pool_size s" "maxsize (snd (acquire s)) = maxsize s"
    by (simp_all add: acquire_def warm_loop_size warm_loop_maxsize)
  with assms CallAcquire show ?thesis by (auto split: task.splits)
next
  case (ConnectorReturns t r wr)
  with assms show ?thesis
    by (auto simp add: resume_warm_bound resume_select_bound resume_warm_maxsize
        resume_select_maxsize split: task.splits acq_pc.splits)
next
  case (ConnectorRaises t x)
  with assms show ?thesis
    by (auto simp add: resume_warm_bound resume_select_bound resume_warm_maxsize
        resume_select_maxsize split: task.splits acq_pc.splits)
next
  case (WakeGetter t)
  have "pool_size (snd (select_loop s)) \<le> pool_size s" by (rule select_loop_size)
  with assms WakeGetter show ?thesis
    by (auto simp add: select_loop_maxsize split: task.splits acq_pc.splits)
next
  case (CallRelease t c)
  show ?thesis
  proof (cases "release c s")
    case (Inl x)
    with assms CallRelease show ?thesis by (simp split: task.splits)
  next
    case (Inr s1)
    from release_bound [OF Inr] assms have "pool_size s1 \<le> maxsize s \<and> maxsize s1 = maxsize s"
      by simp
    with Inr CallRelease assms show ?thesis by (simp add: pool_size_def split: task.splits)
  qed
next
  case CallClear
  with assms clear_bound [of s] show ?thesis by simp
next
  case (ReaderChanges r rd)
  with assms show ?thesis by simp
qed

lemma exec_bound:
  "pool_size s \<le> maxsize s \<Longrightarrow>
   pool_size (exec es s) \<le> maxsize s \<and> maxsize (exec es s) = maxsize s"
proof (induction es arbitrary: s)
  case Nil
  then show ?case by simp
next
  case (Cons e es)
  from step_bound [OF Cons.prems, of e]
  have "pool_size (step e s) \<le> maxsize (step e s)" and m: "maxsize (step e s) = maxsize s"
    by simp_all
  from Cons.IH [OF this(1)] m show ?case by simp
qed

text \<open>
  C1. In every run, that is for every sequence of events of any number of tasks (calls of
  \<^verbatim>\<open>acquire\<close>, connector results, wake-ups at the queue, calls of \<^verbatim>\<open>release\<close> with any
  connection, \<^verbatim>\<open>clear\<close>, changes of stream state), \<open>size()\<close> never exceeds \<open>maxsize\<close> in a
  state between two events, provided it did not at the start; \<open>maxsize\<close> never changes. A
  pool as the constructor builds it is empty, so the bound holds in all its runs when
  \<open>maxsize\<close> is not negative, as the data model of the specification requires. The states
  between events include those in which tasks are suspended at the connector, after
  their first test of the bound.
\<close>

theorem bound_invariant:
  "(pool_size s \<le> maxsize s \<longrightarrow>
      pool_size (exec es s) \<le> maxsize s \<and> maxsize (exec es s) = maxsize s) \<and>
   (0 \<le> M \<longrightarrow> pool_size (exec es (boot (init h pt m M ca co) hp)) \<le> M)"
proof -
  have a: "pool_size s \<le> maxsize s \<longrightarrow>
      pool_size (exec es s) \<le> maxsize s \<and> maxsize (exec es s) = maxsize s"
    using exec_bound [of s es] by blast
  let ?s = "boot (init h pt m M ca co) hp"
  have "pool_size ?s = 0" "maxsize ?s = M"
    by (simp_all add: boot_def pool_size_def init_fields fcard_fempty)
  with exec_bound [of ?s es] have b: "0 \<le> M \<longrightarrow> pool_size (exec es ?s) \<le> M" by simp
  from a b show ?thesis by blast
qed

lemma race_run:
  "pool_q (exec race (s_boot 1 2 healthy)) = []"
  "in_use (exec race (s_boot 1 2 healthy)) = {|Connection 3 4, Connection 1 2|}"
  "tasks (exec race (s_boot 1 2 healthy)) 0 = Holding (Connection 1 2)"
  "tasks (exec race (s_boot 1 2 healthy)) 1 = Holding (Connection 3 4)"
  "tasks (exec race (s_boot 1 2 healthy)) 2 = Awaiting Getting"
  "closed (exec race (s_boot 1 2 healthy)) 6"
  "length (calls (exec race (s_boot 1 2 healthy))) = 3"
  by (simp_all add: race_def run_defs)

theorem bound_invariant_witness:
  "pool_size (s_boot 1 2 healthy) \<le> maxsize (s_boot 1 2 healthy) \<and>
   maxsize (s_boot 1 2 healthy) = 2 \<and>
   pool_size (exec race (s_boot 1 2 healthy)) = 2 \<and>
   pool_size (exec race (s_boot 1 2 healthy)) \<le> maxsize (s_boot 1 2 healthy) \<and>
   length (calls (exec race (s_boot 1 2 healthy))) = 3"
proof -
  have a: "pool_size (s_boot 1 2 healthy) \<le> maxsize (s_boot 1 2 healthy)"
    "maxsize (s_boot 1 2 healthy) = 2"
    by (simp_all add: s_boot_def boot_def example_pool_def init_def pool_size_def fcard_fempty)
  from bound_invariant [where s = "s_boot 1 2 healthy" and es = race] a
  have b: "pool_size (exec race (s_boot 1 2 healthy)) \<le> maxsize (s_boot 1 2 healthy)"
    by blast
  have c: "pool_size (exec race (s_boot 1 2 healthy)) = 2"
    by (simp add: pool_size_def race_run fcard_finsert_if fcard_fempty)
  from a b c race_run(7) show ?thesis by blast
qed

section \<open>No connection is issued twice\<close>

lemma pool_inv_frame [simp]:
  "pool_inv (w\<lparr>readers := x\<rparr>) = pool_inv w"
  "pool_inv (w\<lparr>closed := y\<rparr>) = pool_inv w"
  "pool_inv (w\<lparr>calls := z\<rparr>) = pool_inv w"
  "pool_inv (do_close c w) = pool_inv w"
  "pool_inv (close_streams r wr w) = pool_inv w"
  by (simp_all add: pool_inv_def)

lemma pool_inv_tail: "pool_q w = c # q \<Longrightarrow> pool_inv w \<Longrightarrow> pool_inv (w\<lparr>pool_q := q\<rparr>)"
  by (simp add: pool_inv_def)

lemma select_loop_post: "pool_inv w \<Longrightarrow> acq_post (in_use w) (select_loop w)"
proof (induction w rule: select_loop_induct2)
  case (empty w)
  then show ?case by (simp add: select_loop_empty acq_post_def)
next
  case (live w c q)
  then show ?case by (auto simp add: select_loop_live acq_post_def pool_inv_def)
next
  case (replace w c q)
  then show ?case by (simp add: select_loop_replace acq_post_def pool_inv_tail)
next
  case (retry w c q)
  from retry(1,5) have "pool_inv (do_close c (w\<lparr>pool_q := q\<rparr>))"
    by (simp add: pool_inv_tail)
  from retry(4) [OF this] retry(1,2,3) show ?case by (simp add: select_loop_retry)
qed

lemma warm_loop_cases:
  "warm_loop w =
     (if (pool_size w = 0 \<or> pool_size w < minsize w) \<and> pool_size w < maxsize w
      then (Suspended WarmConnect, w\<lparr>calls := calls w @ [(connector w, conn_args w)]\<rparr>)
      else select_loop w)"
  by (simp add: warm_loop_def create_new_conn_enter_def)

lemma warm_loop_post: "pool_inv w \<Longrightarrow> acq_post (in_use w) (warm_loop w)"
proof (cases "(pool_size w = 0 \<or> pool_size w < minsize w) \<and> pool_size w < maxsize w")
  case True
  assume "pool_inv w"
  with True show ?thesis by (simp add: warm_loop_cases acq_post_def)
next
  case False
  then have "warm_loop w = select_loop w" by (simp only: warm_loop_cases if_False)
  moreover assume "pool_inv w"
  ultimately show ?thesis by (simp only: select_loop_post)
qed

lemma resume_warm_post:
  assumes "pool_inv w"
    and "fresh_result w res"
  shows "acq_post (in_use w) (resume_warm res w)"
proof (cases res)
  case (ConnectRaised e)
  with assms(1) show ?thesis
    by (simp add: resume_warm_def create_new_conn_resume_def acq_post_def)
next
  case (Connected r wr)
  show ?thesis
  proof (cases "pool_size w < maxsize w")
    case True
    let ?w = "w\<lparr>pool_q := pool_q w @ [Connection r wr]\<rparr>"
    from assms Connected have "pool_inv ?w" by (auto simp add: pool_inv_def fresh_result_def)
    from warm_loop_post [OF this] True Connected show ?thesis
      by (simp add: resume_warm_def create_new_conn_resume_def)
  next
    case False
    from assms(1) have "pool_inv (close_streams r wr w)" by simp
    from select_loop_post [OF this] False Connected show ?thesis
      by (simp add: resume_warm_def create_new_conn_resume_def)
  qed
qed

lemma resume_select_post:
  assumes "pool_inv w"
    and "fresh_result w res"
  shows "acq_post (in_use w) (resume_select res w)"
proof (cases res)
  case (ConnectRaised e)
  with assms(1) show ?thesis
    by (simp add: resume_select_def create_new_conn_resume_def acq_post_def)
next
  case (Connected r wr)
  show ?thesis
  proof (cases "pool_size w < maxsize w")
    case True
    with assms Connected show ?thesis
      by (auto simp add: resume_select_def create_new_conn_resume_def acq_post_def pool_inv_def
          fresh_result_def)
  next
    case False
    from assms(1) have "pool_inv (close_streams r wr w)" by simp
    from select_loop_post [OF this] False Connected show ?thesis
      by (simp add: resume_select_def create_new_conn_resume_def)
  qed
qed

lemma release_post:
  "pool_inv w \<Longrightarrow> release c w = Inr w' \<Longrightarrow> pool_inv w' \<and> in_use w' = in_use w |-| {|c|}"
  by (auto simp add: release_def Let_def pool_inv_def split: if_splits)

lemma clear_post: "pool_inv (clear w) \<and> in_use (clear w) = in_use w"
  by (simp add: clear_def pool_inv_def)

lemma tasks_close [simp]:
  "tasks (do_close c s) = tasks s" "tasks (close_streams r wr s) = tasks s"
  by (simp_all add: do_close_def close_streams_def)

lemma tasks_select_loop: "tasks (snd (select_loop s)) = tasks (s :: system)"
proof (induction s rule: select_loop_induct2)
  case (empty w) then show ?case by (simp add: select_loop_empty)
next
  case (live w c q) then show ?case by (simp add: select_loop_live)
next
  case (replace w c q) then show ?case by (simp add: select_loop_replace)
next
  case (retry w c q) then show ?case by (simp add: select_loop_retry)
qed

lemma tasks_warm_loop: "tasks (snd (warm_loop s)) = tasks (s :: system)"
  by (simp add: warm_loop_cases tasks_select_loop)

lemma tasks_resume_warm: "tasks (snd (resume_warm res s)) = tasks (s :: system)"
  by (cases res)
    (simp_all add: resume_warm_def create_new_conn_resume_def tasks_warm_loop tasks_select_loop)

lemma tasks_resume_select: "tasks (snd (resume_select res s)) = tasks (s :: system)"
  by (cases res)
    (simp_all add: resume_select_def create_new_conn_resume_def tasks_select_loop)

lemma tasks_release: "release c s = Inr s1 \<Longrightarrow> tasks s1 = tasks (s :: system)"
  by (auto simp add: release_def Let_def split: if_splits)

lemma close_all_tasks [simp]: "tasks (close_all cs s) = tasks (s :: system)"
  by (induction cs arbitrary: s) simp_all

lemma settle_pool_inv: "acq_post U r \<Longrightarrow> pool_inv (settle t r)"
  by (simp add: acq_post_def settle_def pool_inv_def)

lemma settle_holders_inv:
  assumes "holders_inv s" "acq_post (in_use s) r" "tasks (snd r) = tasks s"
  shows "holders_inv (settle t r)"
proof (cases "fst r")
  case (Returned c)
  with assms(2) have c: "c |\<notin>| in_use s" "in_use (snd r) = finsert c (in_use s)"
    by (simp_all add: acq_post_def)
  from assms(1) have h: "\<And>u d. tasks s u = Holding d \<Longrightarrow> d |\<in>| in_use s"
    and i: "\<And>u u' d. tasks s u = Holding d \<Longrightarrow> tasks s u' = Holding d \<Longrightarrow> u = u'"
    by (auto simp add: holders_inv_def)
  show ?thesis
    unfolding holders_inv_def settle_def
    using Returned c assms(3) h i by (auto split: if_splits)
next
  case (Suspended pc)
  with assms(2) have "in_use (snd r) = in_use s" by (simp add: acq_post_def)
  with Suspended assms(1,3) show ?thesis
    by (auto simp add: holders_inv_def settle_def split: if_splits)
next
  case (Raised e)
  with assms(2) have "in_use (snd r) = in_use s" by (simp add: acq_post_def)
  with Raised assms(1,3) show ?thesis
    by (auto simp add: holders_inv_def settle_def split: if_splits)
qed

lemma step_pool_inv:
  assumes "pool_inv s" "new_streams e s"
  shows "pool_inv (step e s)"
proof (cases e)
  case (CallAcquire t)
  from warm_loop_post [OF assms(1)] have "pool_inv (settle t (acquire s))"
    unfolding acquire_def by (rule settle_pool_inv)
  with assms(1) CallAcquire show ?thesis by (simp split: task.splits)
next
  case (ConnectorReturns t r wr)
  with assms(2) have f: "fresh_result s (Connected r wr)" by (simp add: fresh_result_def)
  have "pool_inv (settle t (resume_warm (Connected r wr) s))"
    "pool_inv (settle t (resume_select (Connected r wr) s))"
    using resume_warm_post [OF assms(1) f] resume_select_post [OF assms(1) f]
    by (auto intro: settle_pool_inv)
  with assms(1) ConnectorReturns show ?thesis by (simp split: task.splits acq_pc.splits)
next
  case (ConnectorRaises t x)
  have f: "fresh_result s (ConnectRaised x)" by (simp add: fresh_result_def)
  have "pool_inv (settle t (resume_warm (ConnectRaised x) s))"
    "pool_inv (settle t (resume_select (ConnectRaised x) s))"
    using resume_warm_post [OF assms(1) f] resume_select_post [OF assms(1) f]
    by (auto intro: settle_pool_inv)
  with assms(1) ConnectorRaises show ?thesis by (simp split: task.splits acq_pc.splits)
next
  case (WakeGetter t)
  from select_loop_post [OF assms(1)] have "pool_inv (settle t (select_loop s))"
    by (rule settle_pool_inv)
  with assms(1) WakeGetter show ?thesis by (simp split: task.splits acq_pc.splits)
next
  case (CallRelease t c)
  show ?thesis
  proof (cases "release c s")
    case (Inl x)
    with assms(1) CallRelease show ?thesis by (simp split: task.splits)
  next
    case (Inr s1)
    from release_post [OF assms(1) Inr] have "pool_inv s1" by simp
    then have "pool_inv (s1\<lparr>tasks := (tasks s1)(t := Idle)\<rparr>)" by (simp add: pool_inv_def)
    with \<open>pool_inv s1\<close> Inr assms(1) CallRelease show ?thesis by (simp split: task.splits)
  qed
next
  case CallClear
  with clear_post [of s] show ?thesis by simp
next
  case (ReaderChanges r rd)
  with assms(1) show ?thesis by simp
qed

lemma step_holders_inv:
  assumes "pool_inv s" "holders_inv s" "new_streams e s" "own_release e s"
  shows "holders_inv (step e s)"
proof (cases e)
  case (CallAcquire t)
  have "holders_inv (settle t (acquire s))"
    unfolding acquire_def
    using assms(2) warm_loop_post [OF assms(1)] tasks_warm_loop by (rule settle_holders_inv)
  with assms(2) CallAcquire show ?thesis by (simp split: task.splits)
next
  case (ConnectorReturns t r wr)
  with assms(3) have f: "fresh_result s (Connected r wr)" by (simp add: fresh_result_def)
  have "holders_inv (settle t (resume_warm (Connected r wr) s))"
    using assms(2) resume_warm_post [OF assms(1) f] tasks_resume_warm
    by (rule settle_holders_inv)
  moreover have "holders_inv (settle t (resume_select (Connected r wr) s))"
    using assms(2) resume_select_post [OF assms(1) f] tasks_resume_select
    by (rule settle_holders_inv)
  ultimately show ?thesis
    using assms(2) ConnectorReturns by (simp split: task.splits acq_pc.splits)
next
  case (ConnectorRaises t x)
  have f: "fresh_result s (ConnectRaised x)" by (simp add: fresh_result_def)
  have "holders_inv (settle t (resume_warm (ConnectRaised x) s))"
    using assms(2) resume_warm_post [OF assms(1) f] tasks_resume_warm
    by (rule settle_holders_inv)
  moreover have "holders_inv (settle t (resume_select (ConnectRaised x) s))"
    using assms(2) resume_select_post [OF assms(1) f] tasks_resume_select
    by (rule settle_holders_inv)
  ultimately show ?thesis
    using assms(2) ConnectorRaises by (simp split: task.splits acq_pc.splits)
next
  case (WakeGetter t)
  have "holders_inv (settle t (select_loop s))"
    using assms(2) select_loop_post [OF assms(1)] tasks_select_loop
    by (rule settle_holders_inv)
  with assms(2) WakeGetter show ?thesis by (simp split: task.splits acq_pc.splits)
next
  case (CallRelease t c)
  with assms(4) have own: "tasks s t = Holding c" by simp
  with assms(2) have "c |\<in>| in_use s" by (auto simp add: holders_inv_def)
  then obtain s1 where r: "release c s = Inr s1"
    by (cases "is_stale (s\<lparr>in_use := in_use s |-| {|c|}\<rparr>) c") (simp_all add: release_def Let_def)
  from release_post [OF assms(1) r] tasks_release [OF r]
  have u: "in_use s1 = in_use s |-| {|c|}" and k: "tasks s1 = tasks s" by simp_all
  from assms(2) have h: "\<And>u d. tasks s u = Holding d \<Longrightarrow> d |\<in>| in_use s"
    and i: "\<And>u u' d. tasks s u = Holding d \<Longrightarrow> tasks s u' = Holding d \<Longrightarrow> u = u'"
    by (auto simp add: holders_inv_def)
  have "holders_inv (s1\<lparr>tasks := (tasks s1)(t := Idle)\<rparr>)"
    unfolding holders_inv_def using u k h i own by (auto split: if_splits)
  with CallRelease own r show ?thesis by simp
next
  case CallClear
  with assms(2) clear_post [of s] show ?thesis
    by (simp add: holders_inv_def clear_def)
next
  case (ReaderChanges r rd)
  with assms(2) show ?thesis by (simp add: holders_inv_def)
qed

lemma exec_pool_inv: "pool_inv s \<Longrightarrow> fresh_run es s \<Longrightarrow> pool_inv (exec es s)"
  by (induction es arbitrary: s) (simp_all add: step_pool_inv)

lemma orderly_fresh: "orderly_run es s \<Longrightarrow> fresh_run es s"
  by (induction es arbitrary: s) simp_all

lemma exec_holders_inv:
  "pool_inv s \<Longrightarrow> holders_inv s \<Longrightarrow> orderly_run es s \<Longrightarrow> holders_inv (exec es s)"
  by (induction es arbitrary: s) (simp_all add: step_pool_inv step_holders_inv)

lemma boot_inv: "pool_inv (boot (init h pt m M ca co) hp) \<and> holders_inv (boot (init h pt m M ca co) hp)"
  by (simp add: pool_inv_def holders_inv_def boot_def init_fields)

text \<open>
  C2. In every run in which the connectors return new streams, the queue never holds a
  connection twice and never one that is also in the in-use set (calls of \<^verbatim>\<open>release\<close> with
  any connection are allowed here). The in-use set is a set: a connection is in it at
  most once. In every run in which, in addition, each caller releases only the
  connection it holds, no two tasks hold the same connection at the same time, and every
  held connection is in the in-use set. Both are invariants of the events, and hold for
  the pool the constructor builds.
\<close>

theorem no_double_issue:
  "(pool_inv s \<and> fresh_run es s \<longrightarrow> pool_inv (exec es s)) \<and>
   (pool_inv s \<and> holders_inv s \<and> orderly_run es s \<longrightarrow> holders_inv (exec es s)) \<and>
   pool_inv (boot (init h pt m M ca co) hp) \<and> holders_inv (boot (init h pt m M ca co) hp) \<and>
   (fresh_run es (boot (init h pt m M ca co) hp) \<longrightarrow>
      distinct (pool_q (exec es (boot (init h pt m M ca co) hp))) \<and>
      (\<forall>c. c \<in> set (pool_q (exec es (boot (init h pt m M ca co) hp))) \<longrightarrow>
           c |\<notin>| in_use (exec es (boot (init h pt m M ca co) hp)))) \<and>
   (orderly_run es (boot (init h pt m M ca co) hp) \<longrightarrow>
      (\<forall>t t' c. tasks (exec es (boot (init h pt m M ca co) hp)) t = Holding c \<and>
                tasks (exec es (boot (init h pt m M ca co) hp)) t' = Holding c \<longrightarrow> t = t') \<and>
      (\<forall>t c. tasks (exec es (boot (init h pt m M ca co) hp)) t = Holding c \<longrightarrow>
             c |\<in>| in_use (exec es (boot (init h pt m M ca co) hp))))"
proof -
  let ?b = "boot (init h pt m M ca co) hp"
  have a: "pool_inv s \<and> fresh_run es s \<longrightarrow> pool_inv (exec es s)"
    using exec_pool_inv [of s es] by blast
  have b: "pool_inv s \<and> holders_inv s \<and> orderly_run es s \<longrightarrow> holders_inv (exec es s)"
    using exec_holders_inv [of s es] by blast
  note c = boot_inv [of h pt m M ca co hp]
  have d: "fresh_run es ?b \<longrightarrow> distinct (pool_q (exec es ?b)) \<and>
      (\<forall>c. c \<in> set (pool_q (exec es ?b)) \<longrightarrow> c |\<notin>| in_use (exec es ?b))"
    using exec_pool_inv [of ?b es] c unfolding pool_inv_def by blast
  have e: "orderly_run es ?b \<longrightarrow>
      (\<forall>t t' c. tasks (exec es ?b) t = Holding c \<and> tasks (exec es ?b) t' = Holding c \<longrightarrow> t = t') \<and>
      (\<forall>t c. tasks (exec es ?b) t = Holding c \<longrightarrow> c |\<in>| in_use (exec es ?b))"
    using exec_holders_inv [of ?b es] c unfolding holders_inv_def by blast
  from a b c d e show ?thesis by blast
qed

lemma handover_run:
  "orderly_run handover (s_boot 1 2 healthy)"
  "pool_q (exec handover (s_boot 1 2 healthy)) = []"
  "Connection 3 4 |\<in>| in_use (exec handover (s_boot 1 2 healthy))"
  "Connection 1 2 |\<in>| in_use (exec handover (s_boot 1 2 healthy))"
  "tasks (exec handover (s_boot 1 2 healthy)) 0 = Idle"
  "tasks (exec handover (s_boot 1 2 healthy)) 1 = Holding (Connection 3 4)"
  "tasks (exec handover (s_boot 1 2 healthy)) 2 = Holding (Connection 1 2)"
  by (simp_all add: handover_def race_def run_defs)

theorem no_double_issue_witness:
  "orderly_run handover (s_boot 1 2 healthy) \<and>
   fresh_run handover (s_boot 1 2 healthy) \<and>
   pool_inv (s_boot 1 2 healthy) \<and> holders_inv (s_boot 1 2 healthy) \<and>
   pool_inv (exec handover (s_boot 1 2 healthy)) \<and>
   holders_inv (exec handover (s_boot 1 2 healthy)) \<and>
   tasks (exec handover (s_boot 1 2 healthy)) 1 = Holding (Connection 3 4) \<and>
   tasks (exec handover (s_boot 1 2 healthy)) 2 = Holding (Connection 1 2) \<and>
   Connection 3 4 |\<in>| in_use (exec handover (s_boot 1 2 healthy)) \<and>
   Connection 1 2 |\<in>| in_use (exec handover (s_boot 1 2 healthy))"
proof -
  note t = no_double_issue [where s = "s_boot 1 2 healthy" and es = handover
      and h = "''localhost''" and pt = 11211 and m = 1 and M = 2 and ca = None and co = None
      and hp = "\<lambda>_. healthy"]
  have i: "pool_inv (s_boot 1 2 healthy)" "holders_inv (s_boot 1 2 healthy)"
    using t unfolding s_boot_def example_pool_def by blast+
  have f: "fresh_run handover (s_boot 1 2 healthy)"
    using handover_run(1) by (rule orderly_fresh)
  from t i f handover_run(1)
  have "pool_inv (exec handover (s_boot 1 2 healthy))"
    "holders_inv (exec handover (s_boot 1 2 healthy))"
    by blast+
  with i f handover_run show ?thesis by simp
qed

section \<open>Warm-up\<close>

lemma is_stale_frame [simp]:
  "is_stale (w\<lparr>pool_q := x\<rparr>) c = is_stale w c"
  "is_stale (w\<lparr>in_use := y\<rparr>) c = is_stale w c"
  "is_stale (w\<lparr>calls := z\<rparr>) c = is_stale w c"
  by (simp_all add: is_stale_def)

lemma live_result_frame [simp]:
  "live_result (w\<lparr>pool_q := x\<rparr>) res = live_result w res"
  "live_result (w\<lparr>calls := z\<rparr>) res = live_result w res"
  by (simp_all add: live_result_def split: connect_result.splits)

lemma drive_done [simp]:
  "drive rs (Returned c, w) = (Returned c, w)"
  "drive rs (Suspended Getting, w) = (Suspended Getting, w)"
  by (cases rs, simp_all)+

lemma warm_state_size: "warm_state w rs \<Longrightarrow> pool_size w = int (length (pool_q w))"
  by (simp add: warm_state_def pool_size_def fcard_fempty)

lemma select_alone:
  assumes "warm_state w rs"
  shows "select_loop w =
    (case pool_q w of [] \<Rightarrow> (Suspended Getting, w)
     | c # q \<Rightarrow> (Returned c, w\<lparr>pool_q := q, in_use := {|c|}\<rparr>))"
proof (cases "pool_q w")
  case Nil
  then show ?thesis by (simp add: select_loop_empty)
next
  case (Cons c q)
  with assms have "\<not> is_stale w c" by (simp add: warm_state_def)
  with Cons assms show ?thesis by (simp add: select_loop_live warm_state_def)
qed

lemma warm_step:
  assumes "warm_state w (r # rs)" "pool_size w < maxsize w"
  shows "\<exists>rd wr. r = Connected rd wr \<and>
    resume_warm r (w\<lparr>calls := calls w @ [(connector w, conn_args w)]\<rparr>) =
      warm_loop (w\<lparr>calls := calls w @ [(connector w, conn_args w)],
                   pool_q := pool_q w @ [Connection rd wr]\<rparr>) \<and>
    warm_state (w\<lparr>calls := calls w @ [(connector w, conn_args w)],
                   pool_q := pool_q w @ [Connection rd wr]\<rparr>) rs"
proof -
  from assms(1) have "live_result w r" by (simp add: warm_state_def)
  then obtain rd wr where r: "r = Connected rd wr" and l: "\<not> is_stale w (Connection rd wr)"
    by (cases r) (simp_all add: live_result_def)
  from assms l show ?thesis
    by (auto simp add: r resume_warm_def create_new_conn_resume_def warm_state_def)
qed

lemma warm_loop_connect:
  "(pool_size w = 0 \<or> pool_size w < minsize w) \<and> pool_size w < maxsize w \<Longrightarrow>
   warm_loop w = (Suspended WarmConnect, w\<lparr>calls := calls w @ [(connector w, conn_args w)]\<rparr>)"
  unfolding warm_loop_cases by (rule if_P)

lemma warm_loop_select:
  "\<not> ((pool_size w = 0 \<or> pool_size w < minsize w) \<and> pool_size w < maxsize w) \<Longrightarrow>
   warm_loop w = select_loop w"
  unfolding warm_loop_cases by (rule if_not_P)

lemma warm_state_frame:
  "pool_size (w\<lparr>calls := z, pool_q := pool_q w @ [c]\<rparr>) = pool_size w + 1"
  by (simp add: pool_size_def)

lemma warm_up_run:
  "warm_state w rs \<Longrightarrow>
   (\<forall>c w'. drive rs (warm_loop w) = (Returned c, w') \<longrightarrow>
      pool_size w' = max (pool_size w) (max 1 (minsize w)) \<and>
      minsize w' = minsize w \<and> maxsize w' = maxsize w) \<and>
   (1 \<le> maxsize w \<and> max 1 (minsize w) - pool_size w \<le> int (length rs) \<longrightarrow>
      (\<exists>c w'. drive rs (warm_loop w) = (Returned c, w')))"
proof (induction rs arbitrary: w)
  case Nil
  note ws = Nil
  show ?case
  proof (cases "(pool_size w = 0 \<or> pool_size w < minsize w) \<and> pool_size w < maxsize w")
    case True
    then have "warm_loop w = (Suspended WarmConnect, w\<lparr>calls := calls w @ [(connector w, conn_args w)]\<rparr>)"
      by (rule warm_loop_connect)
    with True show ?thesis by auto
  next
    case False
    then have wl: "warm_loop w = select_loop w" by (rule warm_loop_select)
    show ?thesis
    proof (cases "pool_q w")
      case Nil
      with ws have "pool_size w = 0" by (simp add: warm_state_size)
      with False Nil wl show ?thesis by (simp add: select_loop_empty)
    next
      case (Cons c q)
      with ws have k: "pool_size w = int (length q) + 1" by (simp add: warm_state_size)
      from ws have mm: "minsize w \<le> maxsize w" by (simp add: warm_state_def)
      from Cons have "select_loop w = (Returned c, w\<lparr>pool_q := q, in_use := {|c|}\<rparr>)"
        using select_alone [OF ws] by simp
      moreover have "pool_size (w\<lparr>pool_q := q, in_use := {|c|}\<rparr>) = int (length q) + 1"
        by (simp add: pool_size_def fcard_finsert_if fcard_fempty)
      ultimately show ?thesis using wl k False mm by auto
    qed
  qed
next
  case (Cons r rs)
  note ws = Cons.prems
  show ?case
  proof (cases "(pool_size w = 0 \<or> pool_size w < minsize w) \<and> pool_size w < maxsize w")
    case True
    let ?w1 = "w\<lparr>calls := calls w @ [(connector w, conn_args w)]\<rparr>"
    from True have wl: "warm_loop w = (Suspended WarmConnect, ?w1)"
      by (rule warm_loop_connect)
    from True have lt: "pool_size w < maxsize w" by simp
    from warm_step [OF ws lt] obtain rd wr where
      rw: "resume_warm r ?w1 = warm_loop (w\<lparr>calls := calls w @ [(connector w, conn_args w)],
                   pool_q := pool_q w @ [Connection rd wr]\<rparr>)"
      and w2: "warm_state (w\<lparr>calls := calls w @ [(connector w, conn_args w)],
                   pool_q := pool_q w @ [Connection rd wr]\<rparr>) rs"
      by blast
    let ?w2 = "w\<lparr>calls := calls w @ [(connector w, conn_args w)],
                   pool_q := pool_q w @ [Connection rd wr]\<rparr>"
    have d: "drive (r # rs) (warm_loop w) = drive rs (warm_loop ?w2)"
      by (simp add: wl rw)
    have sz: "pool_size ?w2 = pool_size w + 1" by (rule warm_state_frame)
    have fr: "minsize ?w2 = minsize w" "maxsize ?w2 = maxsize w" by simp_all
    note ih = Cons.IH [OF w2, unfolded sz fr]
    from True have le: "pool_size w + 1 \<le> max 1 (minsize w)"
      using pool_size_nonneg [of w] by auto
    show ?thesis
      unfolding d using ih le by (auto simp add: max_def split: if_splits)
  next
    case False
    then have wl: "warm_loop w = select_loop w" by (rule warm_loop_select)
    show ?thesis
    proof (cases "pool_q w")
      case Nil
      with ws have "pool_size w = 0" by (simp add: warm_state_size)
      with False Nil wl show ?thesis by (simp add: select_loop_empty)
    next
      case (Cons c q)
      with ws have k: "pool_size w = int (length q) + 1" by (simp add: warm_state_size)
      from ws have mm: "minsize w \<le> maxsize w" by (simp add: warm_state_def)
      from Cons have "select_loop w = (Returned c, w\<lparr>pool_q := q, in_use := {|c|}\<rparr>)"
        using select_alone [OF ws] by simp
      moreover have "pool_size (w\<lparr>pool_q := q, in_use := {|c|}\<rparr>) = int (length q) + 1"
        by (simp add: pool_size_def fcard_finsert_if fcard_fempty)
      ultimately show ?thesis using wl k False mm by auto
    qed
  qed
qed

text \<open>
  C4. One call of \<^verbatim>\<open>acquire\<close> on an empty pool with \<open>minsize \<le> maxsize\<close>, running alone
  with a connector that always succeeds with healthy connections: if the call returns,
  then \<open>size() = max 1 minsize\<close>, which is at least \<open>min minsize maxsize\<close>; it does return
  when \<open>maxsize \<ge> 1\<close> and the connector answers \<open>max 1 minsize\<close> times; with \<open>maxsize \<le> 0\<close> it
  creates nothing and waits at the empty queue. The warm-up loop: while \<open>size() = 0\<close> or
  \<open>size() < minsize\<close> it asks for a connection, awaiting the connector when the bound
  permits; a connection obtained is put at the tail of the queue and the loop goes on;
  when creation yields \<^verbatim>\<open>None\<close>, at entry or after the connector has answered, control goes
  to the selection loop at once.
\<close>

theorem warm_up_convergence:
  "(pool_q w = [] \<and> in_use w = {||} \<and> minsize w \<le> maxsize w \<and>
    (\<forall>res \<in> set rs. live_result w res) \<longrightarrow>
      (\<forall>c w'. acquire_alone rs w = (Returned c, w') \<longrightarrow>
         pool_size w' = max 1 (minsize w) \<and> min (minsize w) (maxsize w) \<le> pool_size w') \<and>
      (1 \<le> maxsize w \<and> max 1 (minsize w) \<le> int (length rs) \<longrightarrow>
         (\<exists>c w'. acquire_alone rs w = (Returned c, w'))) \<and>
      (maxsize w \<le> 0 \<longrightarrow> acquire_alone rs w = (Suspended Getting, w))) \<and>
   warm_loop v =
     (if (pool_size v = 0 \<or> pool_size v < minsize v) \<and> pool_size v < maxsize v
      then (Suspended WarmConnect, v\<lparr>calls := calls v @ [(connector v, conn_args v)]\<rparr>)
      else select_loop v) \<and>
   (pool_size v < maxsize v \<longrightarrow>
      resume_warm (Connected r wr) v = warm_loop (v\<lparr>pool_q := pool_q v @ [Connection r wr]\<rparr>)) \<and>
   (maxsize v \<le> pool_size v \<longrightarrow>
      resume_warm (Connected r wr) v = select_loop (close_streams r wr v))"
proof -
  have a: "pool_q w = [] \<and> in_use w = {||} \<and> minsize w \<le> maxsize w \<and>
    (\<forall>res \<in> set rs. live_result w res) \<longrightarrow>
      (\<forall>c w'. acquire_alone rs w = (Returned c, w') \<longrightarrow>
         pool_size w' = max 1 (minsize w) \<and> min (minsize w) (maxsize w) \<le> pool_size w') \<and>
      (1 \<le> maxsize w \<and> max 1 (minsize w) \<le> int (length rs) \<longrightarrow>
         (\<exists>c w'. acquire_alone rs w = (Returned c, w'))) \<and>
      (maxsize w \<le> 0 \<longrightarrow> acquire_alone rs w = (Suspended Getting, w))"
  proof
    assume h: "pool_q w = [] \<and> in_use w = {||} \<and> minsize w \<le> maxsize w \<and>
      (\<forall>res \<in> set rs. live_result w res)"
    then have ws: "warm_state w rs" by (simp add: warm_state_def)
    from h have z: "pool_size w = 0" by (simp add: pool_size_def fcard_fempty)
    from h have mm: "minsize w \<le> maxsize w" by simp
    note run = warm_up_run [OF ws, unfolded z]
    have p1: "\<forall>c w'. acquire_alone rs w = (Returned c, w') \<longrightarrow>
         pool_size w' = max 1 (minsize w) \<and> min (minsize w) (maxsize w) \<le> pool_size w'"
      using run mm unfolding acquire_alone_def acquire_def by fastforce
    have p2: "1 \<le> maxsize w \<and> max 1 (minsize w) \<le> int (length rs) \<longrightarrow>
         (\<exists>c w'. acquire_alone rs w = (Returned c, w'))"
      using run unfolding acquire_alone_def acquire_def by simp
    have p3: "maxsize w \<le> 0 \<longrightarrow> acquire_alone rs w = (Suspended Getting, w)"
    proof
      assume "maxsize w \<le> 0"
      with z have "warm_loop w = select_loop w" by (intro warm_loop_select) simp
      with h show "acquire_alone rs w = (Suspended Getting, w)"
        by (simp add: acquire_alone_def acquire_def select_loop_empty)
    qed
    from p1 p2 p3 show "(\<forall>c w'. acquire_alone rs w = (Returned c, w') \<longrightarrow>
         pool_size w' = max 1 (minsize w) \<and> min (minsize w) (maxsize w) \<le> pool_size w') \<and>
      (1 \<le> maxsize w \<and> max 1 (minsize w) \<le> int (length rs) \<longrightarrow>
         (\<exists>c w'. acquire_alone rs w = (Returned c, w'))) \<and>
      (maxsize w \<le> 0 \<longrightarrow> acquire_alone rs w = (Suspended Getting, w))"
      by blast
  qed
  have b: "pool_size v < maxsize v \<longrightarrow>
      resume_warm (Connected r wr) v = warm_loop (v\<lparr>pool_q := pool_q v @ [Connection r wr]\<rparr>)"
    by (simp add: resume_warm_def create_new_conn_resume_def)
  have c: "maxsize v \<le> pool_size v \<longrightarrow>
      resume_warm (Connected r wr) v = select_loop (close_streams r wr v)"
    by (simp add: resume_warm_def create_new_conn_resume_def)
  from a b c warm_loop_cases [of v] show ?thesis by blast
qed

lemma alone_run:
  "fst (acquire_alone three_answers (s_boot 2 3 healthy)) = Returned (Connection 1 2)"
  "pool_q (snd (acquire_alone three_answers (s_boot 2 3 healthy))) = [Connection 3 4]"
  "in_use (snd (acquire_alone three_answers (s_boot 2 3 healthy))) = {|Connection 1 2|}"
  "length (calls (snd (acquire_alone three_answers (s_boot 2 3 healthy)))) = 2"
  "acquire_alone three_answers (s_boot (- 1) 0 healthy) = (Suspended Getting, s_boot (- 1) 0 healthy)"
  by (simp_all add: acquire_alone_def three_answers_def run_defs)

theorem warm_up_convergence_witness:
  "pool_q (s_boot 2 3 healthy) = [] \<and> in_use (s_boot 2 3 healthy) = {||} \<and>
   minsize (s_boot 2 3 healthy) = 2 \<and> maxsize (s_boot 2 3 healthy) = 3 \<and>
   live_result (s_boot 2 3 healthy) (Connected 1 2) \<and>
   live_result (s_boot 2 3 healthy) (Connected 3 4) \<and>
   live_result (s_boot 2 3 healthy) (Connected 5 6) \<and>
   fst (acquire_alone three_answers (s_boot 2 3 healthy)) = Returned (Connection 1 2) \<and>
   pool_size (snd (acquire_alone three_answers (s_boot 2 3 healthy))) = 2 \<and>
   min (minsize (s_boot 2 3 healthy)) (maxsize (s_boot 2 3 healthy))
     \<le> pool_size (snd (acquire_alone three_answers (s_boot 2 3 healthy))) \<and>
   length (calls (snd (acquire_alone three_answers (s_boot 2 3 healthy)))) = 2"
proof -
  let ?s = "s_boot 2 3 healthy"
  have a: "pool_q ?s = []" "in_use ?s = {||}" "minsize ?s = 2" "maxsize ?s = 3"
    by (simp_all add: s_boot_def boot_def example_pool_def init_def)
  have l: "live_result ?s (Connected 1 2)" "live_result ?s (Connected 3 4)"
    "live_result ?s (Connected 5 6)"
    by (simp_all add: live_result_def is_stale_def at_eof_def healthy_def s_boot_def boot_def)
  then have all: "\<forall>res \<in> set three_answers. live_result ?s res"
    by (simp add: three_answers_def)
  obtain c w' where r: "acquire_alone three_answers ?s = (c, w')"
    by (cases "acquire_alone three_answers ?s")
  with alone_run(1) have c: "c = Returned (Connection 1 2)" by simp
  from warm_up_convergence [where w = ?s and rs = three_answers and v = ?s and r = 1 and wr = 2]
    a all r c
  have "pool_size w' = max 1 (minsize ?s) \<and> min (minsize ?s) (maxsize ?s) \<le> pool_size w'"
    by simp
  with a r have "pool_size (snd (acquire_alone three_answers ?s)) = 2"
    "min (minsize ?s) (maxsize ?s) \<le> pool_size (snd (acquire_alone three_answers ?s))"
    by simp_all
  with a l alone_run show ?thesis by simp
qed

section \<open>Comparison of connections\<close>

text \<open>
  Two different tuple objects with the same reader and the same writer are equal for
  \<^verbatim>\<open>==\<close>; after the first was added to the in-use set the second is found in it, and
  \<^verbatim>\<open>release\<close> of the second succeeds.
\<close>

theorem identity_comparison_counterexample:
  "\<not> py_is first_tuple second_tuple \<and>
   reader (conn first_tuple) = reader (conn second_tuple) \<and>
   writer (conn first_tuple) = writer (conn second_tuple) \<and>
   py_eq first_tuple second_tuple \<and>
   set_contains second_tuple (set_add first_tuple {||}) \<and>
   in_use (w_held healthy) = set_add first_tuple {||} \<and>
   release_handle second_tuple (w_held healthy) =
     Inr ((w_held healthy)\<lparr>in_use := {||}, pool_q := [Connection 1 2, Connection 3 4]\<rparr>)"
  by (simp add: py_is_def py_eq_def set_contains_def set_add_def release_handle_def
      first_tuple_def second_tuple_def w_held_def release_def is_stale_def at_eof_def healthy_def)

text \<open>
  C5, as the code has it. Two connections are equal exactly when their readers are the
  same object and their writers are the same object, whether or not they are the same
  tuple object, and membership in the in-use set (hence the \<^verbatim>\<open>KeyError\<close> of \<^verbatim>\<open>release\<close>) is
  decided by that equality. Streams are compared by identity: connections over
  different readers are never equal, whatever the state of the readers.
\<close>

theorem tuple_comparison:
  "py_eq a b = (reader (conn a) = reader (conn b) \<and> writer (conn a) = writer (conn b)) \<and>
   set_contains b (set_add a S) = (py_eq a b \<or> set_contains b S) \<and>
   (release_handle b w = Inl KeyError) = (\<not> set_contains b (in_use w)) \<and>
   (reader (conn a) \<noteq> reader (conn b) \<longrightarrow>
      \<not> py_eq a b \<and> (set_contains b (set_add a S) = set_contains b S))"
  by (auto simp add: py_eq_def set_contains_def set_add_def release_handle_def release_def
      Let_def Connection.expand)

theorem tuple_comparison_witness:
  "reader (conn first_tuple) \<noteq> reader (conn third_tuple) \<and>
   readers (w_held healthy) (reader (conn first_tuple)) =
     readers (w_held healthy) (reader (conn third_tuple)) \<and>
   \<not> py_eq first_tuple third_tuple \<and>
   \<not> set_contains third_tuple (set_add first_tuple {||}) \<and>
   release_handle third_tuple (w_held healthy) = Inl KeyError \<and>
   py_eq first_tuple second_tuple"
  using tuple_comparison [where a = first_tuple and b = third_tuple and S = "{||}"
      and w = "w_held healthy"]
    tuple_comparison [where a = first_tuple and b = second_tuple and S = "{||}"
      and w = "w_held healthy"]
  by (simp add: first_tuple_def second_tuple_def third_tuple_def w_held_def set_contains_def)

end
